theory Spec2Isabelle
  imports Main "HOL-Library.Char_ord" "HOL-Library.List_Lexorder"
begin

section \<open>Byte slices, errors and panics\<close>

text \<open>
  A Go \<^verbatim>\<open>[]byte\<close> used as a key or a path is a list of bytes; an Isabelle
  \<^typ>\<open>char\<close> is one byte, so such a slice is a \<^typ>\<open>string\<close> and the order of
  \<^verbatim>\<open>bytes.Compare\<close> is the lexicographic order of lists of bytes (a proper prefix
  is smaller).
\<close>

type_synonym bytes = string

definition bytes_compare :: "bytes \<Rightarrow> bytes \<Rightarrow> int" where
  "bytes_compare a b = (if a < b then -1 else if a = b then 0 else 1)"

text \<open>A Go function either returns or panics; a panic carries a message.\<close>

datatype 'a outcome = Panicked string | Returned 'a

text \<open>
  The error values of the repository (\<^verbatim>\<open>common.Err...\<close>, \<^verbatim>\<open>internal.Err...\<close>), any other
  error, and an error that wraps another one. \<^verbatim>\<open>errors.Is\<close> follows the chain of
  wrapped errors.
\<close>

datatype error =
    ErrKeyNotFound
  | ErrObjectStore
  | ErrInvalidDBState
  | ErrAlreadyExists
  | ErrFenced
  | ErrOther string
  | Wrapped string error

fun errors_is :: "error \<Rightarrow> error \<Rightarrow> bool" where
  "errors_is (Wrapped msg e) target = (Wrapped msg e = target \<or> errors_is e target)"
| "errors_is e target = (e = target)"

text \<open>
  Modelled from the spec: \<^verbatim>\<open>assert.True\<close> and \<^verbatim>\<open>common.AssertTrue\<close>, which are not
  among the files at hand. The spec does not describe them; they are taken to panic with
  their message when the condition is false and to do nothing otherwise.
\<close>

definition assert_true :: "bool \<Rightarrow> string \<Rightarrow> unit outcome" where
  "assert_true cond msg = (if cond then Returned () else Panicked msg)"

section \<open>Sorted runs\<close>

text \<open>
  Modelled from the spec: \<^verbatim>\<open>sstable.ID\<close>, whose declaration is not among the files at
  hand. The spec has a tagged union of a WAL id and a compacted id; the code reads a type
  tag \<^verbatim>\<open>id.Type\<close> and a string \<^verbatim>\<open>id.Value\<close>. The tag is a Go integer constant, so
  a value other than the two named ones can occur; \<^verbatim>\<open>sstPath\<close> has a branch for it.
\<close>

datatype id_type = WAL | Compacted | UnknownType nat

record sstable_id =
  id_type :: id_type
  id_value :: string

text \<open>
  Modelled from the spec: the SST handle and its info, whose declarations are not among
  the files at hand: an id and an info with the first key. Of the info the code at hand
  reads the first key only (\<^verbatim>\<open>FirstKeyBytes()\<close> in package slatedb,
  \<^verbatim>\<open>Info.FirstKey\<close> in package compaction).
\<close>

record sst_info =
  first_key :: bytes

record sst_handle =
  handle_id :: sstable_id
  info :: sst_info

subsection \<open>Package slatedb: the linear scan\<close>

text \<open>
  The \<^verbatim>\<open>for i, sst := range s.sstList\<close> loop of \<^verbatim>\<open>indexOfSSTWithKey\<close>
  (sortedrun.go), started at position \<open>i\<close>; its value is the final \<^verbatim>\<open>index\<close>,
  which stays 0 when the range is exhausted without a \<^verbatim>\<open>break\<close>.
\<close>

function scan_from :: "sst_handle list \<Rightarrow> bytes \<Rightarrow> nat \<Rightarrow> nat" where
  "scan_from sstList key i =
     (if length sstList \<le> i then 0
      else if bytes_compare (first_key (info (sstList ! i))) key > 0 then i
      else if int i = int (length sstList) - 1 then i + 1
      else scan_from sstList key (i + 1))"
  by pat_completeness auto
termination
  by (relation "measure (\<lambda>(sstList, key, i). length sstList - i)") auto

declare scan_from.simps [simp del]

definition indexOfSSTWithKey :: "sst_handle list \<Rightarrow> bytes \<Rightarrow> nat option" where
  "indexOfSSTWithKey sstList key =
     (let index = scan_from sstList key 0
      in if index > 0 then Some (index - 1) else None)"

subsection \<open>Package compaction: \<^verbatim>\<open>sort.Search\<close>\<close>

text \<open>
  Go's \<^verbatim>\<open>sort.Search(n, f)\<close>: \<^verbatim>\<open>i, j := 0, n; for i < j { h := (i+j)/2;
  if !f(h) { i = h + 1 } else { j = h } }; return i\<close>. The predicate may panic, and
  then the search panics.
\<close>

function sort_search_from :: "nat \<Rightarrow> nat \<Rightarrow> (nat \<Rightarrow> bool outcome) \<Rightarrow> nat outcome" where
  "sort_search_from i j f =
     (if i < j then
        (let h = (i + j) div 2
         in case f h of
              Panicked msg \<Rightarrow> Panicked msg
            | Returned b \<Rightarrow> if \<not> b then sort_search_from (h + 1) j f
                           else sort_search_from i h f)
      else Returned i)"
  by pat_completeness auto
termination
  by (relation "measure (\<lambda>(i, j, f). j - i)") auto

declare sort_search_from.simps [simp del]

definition sort_search :: "nat \<Rightarrow> (nat \<Rightarrow> bool outcome) \<Rightarrow> nat outcome" where
  "sort_search n f = sort_search_from 0 n f"

text \<open>The closure passed to \<^verbatim>\<open>sort.Search\<close> by the compaction package.\<close>

definition first_key_after :: "sst_handle list \<Rightarrow> bytes \<Rightarrow> nat \<Rightarrow> bool outcome" where
  "first_key_after sstList key i =
     (case assert_true (length (first_key (info (sstList ! i))) \<noteq> 0)
             ''sst must have first key'' of
        Panicked msg \<Rightarrow> Panicked msg
      | Returned _ \<Rightarrow> Returned (bytes_compare (first_key (info (sstList ! i))) key > 0))"

definition compaction_indexOfSSTWithKey :: "sst_handle list \<Rightarrow> bytes \<Rightarrow> nat option outcome" where
  "compaction_indexOfSSTWithKey sstList key =
     (case sort_search (length sstList) (first_key_after sstList key) of
        Panicked msg \<Rightarrow> Panicked msg
      | Returned index \<Rightarrow> Returned (if index > 0 then Some (index - 1) else None))"

text \<open>The first keys of a run, and the invariant that they are strictly ascending.\<close>

definition first_keys :: "sst_handle list \<Rightarrow> bytes list" where
  "first_keys sstList = map (\<lambda>h. first_key (info h)) sstList"

definition strictly_ascending :: "sst_handle list \<Rightarrow> bool" where
  "strictly_ascending sstList = sorted_wrt (<) (first_keys sstList)"

text \<open>A handle that carries the given first key, for concrete runs.\<close>

definition handle_with_first_key :: "bytes \<Rightarrow> sst_handle" where
  "handle_with_first_key k = \<lparr>handle_id = \<lparr>id_type = Compacted, id_value = []\<rparr>, info = \<lparr>first_key = k\<rparr>\<rparr>"

section \<open>The standard-library functions the table store calls\<close>

text \<open>
  \<^verbatim>\<open>strings.Index\<close>: the position of the first occurrence of \<open>sub\<close> in \<open>s\<close>.
  \<^verbatim>\<open>strings.Contains\<close> asks whether there is one; \<^verbatim>\<open>strings.Replace(s, old, new, 1)\<close>
  replaces the first one.
\<close>

fun strings_index :: "string \<Rightarrow> string \<Rightarrow> nat option" where
  "strings_index [] sub = (if sub = [] then Some 0 else None)"
| "strings_index (c # cs) sub =
     (if take (length sub) (c # cs) = sub then Some 0
      else map_option Suc (strings_index cs sub))"

definition strings_contains :: "string \<Rightarrow> string \<Rightarrow> bool" where
  "strings_contains s sub = (strings_index s sub \<noteq> None)"

definition strings_replace_first :: "string \<Rightarrow> string \<Rightarrow> string \<Rightarrow> string" where
  "strings_replace_first s old new =
     (case strings_index s old of
        None \<Rightarrow> s
      | Some i \<Rightarrow> take i s @ new @ drop (i + length old) s)"

text \<open>
  \<^verbatim>\<open>path.Ext\<close>: \<^verbatim>\<open>for i := len(path)-1; i >= 0 && path[i] != '/'; i-- { if path[i] == '.'
  { return path[i:] } }; return ""\<close>. The scan runs over the reversed path and collects
  the suffix it has passed.
\<close>

fun ext_scan :: "string \<Rightarrow> string \<Rightarrow> string" where
  "ext_scan [] suffix = []"
| "ext_scan (c # front) suffix =
     (if c = CHR ''/'' then []
      else if c = CHR ''.'' then c # suffix
      else ext_scan front (c # suffix))"

definition path_ext :: "string \<Rightarrow> string" where
  "path_ext p = ext_scan (rev p) []"

text \<open>
  \<^verbatim>\<open>path.Base\<close>: the empty path gives \<^verbatim>\<open>"."\<close>; trailing slashes are stripped; the
  part after the last slash is kept; if nothing is left the path was all slashes and the
  result is \<^verbatim>\<open>"/"\<close>.
\<close>

definition path_base :: "string \<Rightarrow> string" where
  "path_base p =
     (if p = [] then ''.''
      else
        (let stripped = rev (dropWhile (\<lambda>c. c = CHR ''/'') (rev p));
             element = rev (takeWhile (\<lambda>c. c \<noteq> CHR ''/'') (rev stripped))
         in if element = [] then ''/'' else element))"

text \<open>
  \<^verbatim>\<open>path.Clean\<close> on the elements of a path: empty elements and \<^verbatim>\<open>"."\<close> vanish, a
  \<^verbatim>\<open>".."\<close> removes the element before it, is dropped at the root and is kept at the
  start of a path that is not rooted. \<^verbatim>\<open>path.Join\<close> joins its arguments with slashes,
  skipping leading empty ones, and cleans the result.
\<close>

fun split_slash :: "string \<Rightarrow> string list" where
  "split_slash [] = [[]]"
| "split_slash (c # cs) =
     (if c = CHR ''/'' then [] # split_slash cs
      else (case split_slash cs of
              [] \<Rightarrow> [[c]]
            | x # xs \<Rightarrow> (c # x) # xs))"

fun join_slash :: "string list \<Rightarrow> string" where
  "join_slash [] = []"
| "join_slash [x] = x"
| "join_slash (x # y # zs) = x @ ''/'' @ join_slash (y # zs)"

definition clean_step :: "bool \<Rightarrow> string list \<Rightarrow> string \<Rightarrow> string list" where
  "clean_step rooted out element =
     (if element = [] \<or> element = ''.'' then out
      else if element = ''..'' then
        (if out \<noteq> [] \<and> last out \<noteq> ''..'' then butlast out
         else if \<not> rooted then out @ [''..'']
         else out)
      else out @ [element])"

definition path_clean :: "string \<Rightarrow> string" where
  "path_clean p =
     (if p = [] then ''.''
      else
        (let rooted = (hd p = CHR ''/'');
             out = foldl (clean_step rooted) [] (split_slash p);
             cleaned = (if rooted then ''/'' else []) @ join_slash out
         in if cleaned = [] then ''.'' else cleaned))"

definition path_join :: "string list \<Rightarrow> string" where
  "path_join elems =
     (if concat elems = [] then []
      else path_clean
             (foldl (\<lambda>buf e. if buf \<noteq> [] \<or> e \<noteq> []
                               then (if buf \<noteq> [] then buf @ ''/'' else buf) @ e
                               else buf) [] elems))"

text \<open>
  \<^verbatim>\<open>strconv.ParseUint(s, 10, 64)\<close>: the empty string is a syntax error; so is any
  character that is not a decimal digit (no sign, no underscore in base 10); a value
  above \<open>2^64 - 1\<close> is a range error. The loop keeps the value in a \<^verbatim>\<open>uint64\<close>; its
  two overflow tests (\<^verbatim>\<open>n >= cutoff\<close> before multiplying, \<^verbatim>\<open>n1 < n || n1 > maxVal\<close>
  after adding) are written here on unbounded naturals.
\<close>

datatype num_error = ErrSyntax | ErrRange

definition is_digit :: "char \<Rightarrow> bool" where
  "is_digit c = (CHR ''0'' \<le> c \<and> c \<le> CHR ''9'')"

definition digit_value :: "char \<Rightarrow> nat" where
  "digit_value c = of_char c - of_char CHR ''0''"

definition max_uint64 :: nat where
  "max_uint64 = 18446744073709551615"

fun parse_uint_from :: "string \<Rightarrow> nat \<Rightarrow> num_error + nat" where
  "parse_uint_from [] n = Inr n"
| "parse_uint_from (c # cs) n =
     (if \<not> is_digit c then Inl ErrSyntax
      else if n \<ge> max_uint64 div 10 + 1 then Inl ErrRange
      else if n * 10 + digit_value c > max_uint64 then Inl ErrRange
      else parse_uint_from cs (n * 10 + digit_value c))"

definition parse_uint :: "string \<Rightarrow> num_error + nat" where
  "parse_uint s = (if s = [] then Inl ErrSyntax else parse_uint_from s 0)"

section \<open>The table store\<close>

text \<open>
  The object store is an interface of an external library. What the table store needs of
  it is a parameter of the model: the objects it holds, the error (if any) with which an
  upload to a path fails, the names that \<^verbatim>\<open>Iter\<close> hands to its callback for a
  directory (recursively, in the order of the calls) and the error (if any) with which
  that iteration ends. An upload that succeeds stores the object under its path; one
  that fails leaves the objects as they were.
\<close>

record bucket =
  objects :: "string \<rightharpoonup> bytes"
  upload_error :: "string \<Rightarrow> error option"
  iter_entries :: "string \<Rightarrow> string list"
  iter_error :: "string \<Rightarrow> error option"

definition bucket_upload :: "bucket \<Rightarrow> string \<Rightarrow> bytes \<Rightarrow> error option \<times> bucket" where
  "bucket_upload b name content =
     (case upload_error b name of
        Some e \<Rightarrow> (Some e, b)
      | None \<Rightarrow> (None, b\<lparr>objects := (objects b)(name \<mapsto> content)\<rparr>))"

text \<open>
  \<^verbatim>\<open>sstable.Table\<close>, the result of a builder: the encoded blocks, the optional bloom
  filter and the info. The filter type is not inspected and stays a type variable.
\<close>

record 'f encoded_sst =
  blocks :: "bytes list"
  bloom :: "'f option"
  table_info :: sst_info

text \<open>
  \<^verbatim>\<open>TableStore\<close>. The filter cache is a cache of an external library, bounded at 1000
  entries; it is modelled as a map from ids to the cached optional filter, without
  eviction.
\<close>

record 'f table_store =
  bucket :: bucket
  rootPath :: string
  walPath :: string
  compactedPath :: string
  filterCache :: "sstable_id \<rightharpoonup> 'f option"

definition sstPath :: "'f table_store \<Rightarrow> sstable_id \<Rightarrow> string" where
  "sstPath ts sid =
     (if id_type sid = WAL then path_join [rootPath ts, walPath ts, id_value sid @ ''.sst'']
      else if id_type sid = Compacted
        then path_join [rootPath ts, compactedPath ts, id_value sid @ ''.sst'']
      else [])"

definition cacheFilter :: "'f table_store \<Rightarrow> sstable_id \<Rightarrow> 'f option \<Rightarrow> 'f table_store" where
  "cacheFilter ts sstID fltr = ts\<lparr>filterCache := (filterCache ts)(sstID \<mapsto> fltr)\<rparr>"

definition NewHandle :: "sstable_id \<Rightarrow> sst_info \<Rightarrow> sst_handle" where
  "NewHandle sid sst_inf = \<lparr>handle_id = sid, info = sst_inf\<rparr>"

text \<open>
  \<^verbatim>\<open>WriteSST\<close>: the loop appends the blocks in order to \<^verbatim>\<open>blocksData\<close>; the upload
  decides between the error return and caching the filter.
\<close>

definition WriteSST ::
  "'f table_store \<Rightarrow> sstable_id \<Rightarrow> 'f encoded_sst \<Rightarrow> (error + sst_handle) \<times> 'f table_store" where
  "WriteSST ts sid encodedSST =
     (let sstPath = sstPath ts sid;
          blocksData = foldl (\<lambda>data block. data @ block) [] (blocks encodedSST);
          (err, b) = bucket_upload (bucket ts) sstPath blocksData;
          ts1 = ts\<lparr>bucket := b\<rparr>
      in case err of
           Some e \<Rightarrow> (Inl ErrObjectStore, ts1)
         | None \<Rightarrow> (Inr (NewHandle sid (table_info encodedSST)),
                     cacheFilter ts1 sid (bloom encodedSST)))"

text \<open>
  \<^verbatim>\<open>parseID\<close>: the assertion on the extension panics when it fails; a base name that
  does not parse is the error \<^verbatim>\<open>ErrInvalidDBState\<close>.
\<close>

definition parseID :: "string \<Rightarrow> string \<Rightarrow> (error + nat) outcome" where
  "parseID filepath expectedExt =
     (case assert_true (path_ext filepath = expectedExt) ''invalid wal file'' of
        Panicked msg \<Rightarrow> Panicked msg
      | Returned _ \<Rightarrow>
          (let base = path_base filepath;
               idStr = strings_replace_first base expectedExt []
           in case parse_uint idStr of
                Inl e \<Rightarrow> Returned (Inl ErrInvalidDBState)
              | Inr n \<Rightarrow> Returned (Inr n)))"

text \<open>
  The callback that \<^verbatim>\<open>getWalSSTList\<close> gives to \<^verbatim>\<open>Iter\<close>, run over the names in
  the order \<^verbatim>\<open>Iter\<close> hands them over; \<open>walList\<close> is the slice it appends to. The
  callback always returns \<^verbatim>\<open>nil\<close>, so only a panic stops the iteration early.
\<close>

fun collect_wal_ids :: "nat \<Rightarrow> string list \<Rightarrow> nat list \<Rightarrow> nat list outcome" where
  "collect_wal_ids walIDLastCompacted [] walList = Returned walList"
| "collect_wal_ids walIDLastCompacted (filepath # rest) walList =
     (if strings_contains filepath ''.sst'' then
        (case parseID filepath ''.sst'' of
           Panicked msg \<Rightarrow> Panicked msg
         | Returned (Inr walID) \<Rightarrow>
             if walID > walIDLastCompacted
             then collect_wal_ids walIDLastCompacted rest (walList @ [walID])
             else collect_wal_ids walIDLastCompacted rest walList
         | Returned (Inl err) \<Rightarrow> collect_wal_ids walIDLastCompacted rest walList)
      else collect_wal_ids walIDLastCompacted rest walList)"

definition getWalSSTList :: "'f table_store \<Rightarrow> nat \<Rightarrow> (error + nat list) outcome" where
  "getWalSSTList ts walIDLastCompacted =
     (let walPath = path_join [rootPath ts, walPath ts]
      in case collect_wal_ids walIDLastCompacted (iter_entries (bucket ts) walPath) [] of
           Panicked msg \<Rightarrow> Panicked msg
         | Returned walList \<Rightarrow>
             (case iter_error (bucket ts) walPath of
                Some err \<Rightarrow> Returned (Inl ErrObjectStore)
              | None \<Rightarrow> Returned (Inr (sort walList))))"

text \<open>
  The listing that \<^verbatim>\<open>getWalSSTList\<close> sees, and the condition that each of its names
  that contains \<^verbatim>\<open>".sst"\<close> has \<^verbatim>\<open>".sst"\<close> as its extension.
\<close>

definition wal_listing :: "'f table_store \<Rightarrow> string list" where
  "wal_listing ts = iter_entries (bucket ts) (path_join [rootPath ts, walPath ts])"

definition sst_names_have_sst_ext :: "string list \<Rightarrow> bool" where
  "sst_names_have_sst_ext names =
     list_all (\<lambda>p. strings_contains p ''.sst'' \<longrightarrow> path_ext p = ''.sst'') names"

text \<open>A decimal \<^verbatim>\<open>u64\<close>: a non-empty string of digits whose value fits 64 bits.\<close>

definition decimal_value :: "string \<Rightarrow> nat" where
  "decimal_value s = foldl (\<lambda>n c. n * 10 + digit_value c) 0 s"

definition is_decimal_u64 :: "string \<Rightarrow> bool" where
  "is_decimal_u64 s = (s \<noteq> [] \<and> list_all is_digit s \<and> decimal_value s \<le> max_uint64)"

text \<open>A table store over a bucket with the given listing, for concrete runs.\<close>

definition store_listing :: "string list \<Rightarrow> error option \<Rightarrow> unit table_store" where
  "store_listing names err =
     \<lparr>bucket = \<lparr>objects = Map.empty, upload_error = (\<lambda>p. None),
                 iter_entries = (\<lambda>dir. names), iter_error = (\<lambda>dir. err)\<rparr>,
      rootPath = ''db'', walPath = ''wal'', compactedPath = ''compacted'',
      filterCache = Map.empty\<rparr>"

text \<open>
  The base name of a path without its four-character extension, and the WAL id that a
  name \<^verbatim>\<open><decimal-u64-id>.sst\<close> stands for.
\<close>

definition sst_file_stem :: "string \<Rightarrow> string" where
  "sst_file_stem p = take (length (path_base p) - 4) (path_base p)"

definition wal_id_of_path :: "string \<Rightarrow> nat option" where
  "wal_id_of_path p =
     (if is_decimal_u64 (sst_file_stem p) then Some (decimal_value (sst_file_stem p))
      else None)"

text \<open>The same store, with the names that \<^verbatim>\<open>Iter\<close> hands over restricted to \<open>keep\<close>.\<close>

definition restrict_listing :: "(string \<Rightarrow> bool) \<Rightarrow> 'f table_store \<Rightarrow> 'f table_store" where
  "restrict_listing keep ts =
     ts\<lparr>bucket := (bucket ts)\<lparr>iter_entries := (\<lambda>dir. filter keep (iter_entries (bucket ts) dir))\<rparr>\<rparr>"

text \<open>
  The ids that a listing contributes: of each name that contains \<^verbatim>\<open>".sst"\<close> and stands
  for a WAL id above the watermark, that id, in the order of the listing.
\<close>

definition listed_wal_ids :: "nat \<Rightarrow> string list \<Rightarrow> nat list" where
  "listed_wal_ids watermark names =
     List.map_filter
       (\<lambda>p. if strings_contains p ''.sst'' then
               (case wal_id_of_path p of
                  Some n \<Rightarrow> if n > watermark then Some n else None
                | None \<Rightarrow> None)
             else None) names"

text \<open>A table store over a bucket every upload to which fails, for concrete runs.\<close>

definition store_failing_uploads :: "unit table_store" where
  "store_failing_uploads =
     \<lparr>bucket = \<lparr>objects = Map.empty, upload_error = (\<lambda>p. Some (ErrOther ''timeout'')),
                 iter_entries = (\<lambda>dir. []), iter_error = (\<lambda>dir. None)\<rparr>,
      rootPath = ''db'', walPath = ''wal'', compactedPath = ''compacted'',
      filterCache = Map.empty\<rparr>"

section \<open>The memtable flusher and the manifest\<close>

text \<open>
  \<^verbatim>\<open>loadManifest\<close> and \<^verbatim>\<open>writeManifest\<close> call four operations of packages that are
  outside the files at hand: \<^verbatim>\<open>FenceableManifest.Refresh\<close> and
  \<^verbatim>\<open>FenceableManifest.UpdateDBState\<close> on the manifest, \<^verbatim>\<open>RefreshDBState\<close> and
  \<^verbatim>\<open>CoreStateSnapshot\<close> on the state of the database. They are parameters of the
  model, over any type \<open>'m\<close> of manifests (with the object store behind them and whatever
  other writers do to it), any type \<open>'d\<close> of database states and any type \<open>'c\<close> of core
  snapshots.
\<close>

record ('m, 'd, 'c) manifest_ops =
  Refresh :: "'m \<Rightarrow> (error + 'c) \<times> 'm"
  UpdateDBState :: "'c \<Rightarrow> 'm \<Rightarrow> error option \<times> 'm"
  RefreshDBState :: "'c \<Rightarrow> 'd \<Rightarrow> 'd"
  CoreStateSnapshot :: "'d \<Rightarrow> 'c"

record ('m, 'd) memtable_flusher =
  manifest :: 'm
  db :: 'd

definition loadManifest ::
  "('m, 'd, 'c) manifest_ops \<Rightarrow> ('m, 'd) memtable_flusher
     \<Rightarrow> error option \<times> ('m, 'd) memtable_flusher" where
  "loadManifest ops m =
     (case Refresh ops (manifest m) of
        (Inl err, mf) \<Rightarrow> (Some err, m\<lparr>manifest := mf\<rparr>)
      | (Inr currentManifest, mf) \<Rightarrow>
          (None, m\<lparr>manifest := mf, db := RefreshDBState ops currentManifest (db m)\<rparr>))"

definition writeManifest ::
  "('m, 'd, 'c) manifest_ops \<Rightarrow> ('m, 'd) memtable_flusher
     \<Rightarrow> error option \<times> ('m, 'd) memtable_flusher" where
  "writeManifest ops m =
     (let core = CoreStateSnapshot ops (db m);
          (err, mf) = UpdateDBState ops core (manifest m)
      in (err, m\<lparr>manifest := mf\<rparr>))"

text \<open>
  \<^verbatim>\<open>writeManifestSafely\<close> loops for as long as the write answers
  \<^verbatim>\<open>ErrAlreadyExists\<close>; nothing bounds the loop, so the function is partial: \<open>None\<close>
  is the loop that never ends, \<open>Some (err, m)\<close> the return of \<open>err\<close> (\<open>None\<close> for
  \<^verbatim>\<open>nil\<close>) in the state \<open>m\<close>.
\<close>

partial_function (option) writeManifestSafely ::
  "('m, 'd, 'c) manifest_ops \<Rightarrow> ('m, 'd) memtable_flusher
     \<Rightarrow> (error option \<times> ('m, 'd) memtable_flusher) option" where
  "writeManifestSafely ops m =
     (case loadManifest ops m of
        (Some err, m1) \<Rightarrow> Some (Some err, m1)
      | (None, m1) \<Rightarrow>
          (case writeManifest ops m1 of
             (Some err, m2) \<Rightarrow>
               if errors_is err ErrAlreadyExists then writeManifestSafely ops m2
               else Some (Some err, m2)
           | (None, m2) \<Rightarrow> Some (None, m2)))"

text \<open>
  The state in which the iteration number \<open>n\<close> of the loop starts (counted from 0), if
  the loop comes that far: every iteration before it refreshed without error and had its
  write answered with \<^verbatim>\<open>ErrAlreadyExists\<close>.
\<close>

fun iteration :: "('m, 'd, 'c) manifest_ops \<Rightarrow> nat \<Rightarrow> ('m, 'd) memtable_flusher
     \<Rightarrow> ('m, 'd) memtable_flusher option" where
  "iteration ops 0 m = Some m"
| "iteration ops (Suc n) m =
     (case loadManifest ops m of
        (Some err, m1) \<Rightarrow> None
      | (None, m1) \<Rightarrow>
          (case writeManifest ops m1 of
             (Some err, m2) \<Rightarrow>
               if errors_is err ErrAlreadyExists then iteration ops n m2 else None
           | (None, m2) \<Rightarrow> None))"

text \<open>The write of the iteration that starts in \<open>m\<close> succeeds.\<close>

definition write_succeeds :: "('m, 'd, 'c) manifest_ops \<Rightarrow> ('m, 'd) memtable_flusher \<Rightarrow> bool" where
  "write_succeeds ops m =
     (fst (loadManifest ops m) = None \<and>
      fst (writeManifest ops (snd (loadManifest ops m))) = None)"

text \<open>
  A manifest for concrete runs: a generation counter and the number of writes of other
  writers that are still to land in front of ours. A write that finds its generation
  taken answers \<^verbatim>\<open>ErrAlreadyExists\<close>; the refresh then reads the newer generation.
\<close>

definition contended_ops :: "(nat \<times> nat, nat, nat) manifest_ops" where
  "contended_ops =
     \<lparr>Refresh = (\<lambda>(gen, foreign). (Inr gen, (gen, foreign))),
      UpdateDBState = (\<lambda>core (gen, foreign).
         if foreign > 0 then (Some (Wrapped ''manifest'' ErrAlreadyExists), (gen + 1, foreign - 1))
         else (None, (gen + 1, foreign))),
      RefreshDBState = (\<lambda>core d. core),
      CoreStateSnapshot = (\<lambda>d. d)\<rparr>"

text \<open>
  What the iteration that starts in \<open>m\<close> returns, if it is the last one: \<open>None\<close> when
  it goes round again.
\<close>

definition last_iteration :: "('m, 'd, 'c) manifest_ops \<Rightarrow> ('m, 'd) memtable_flusher
     \<Rightarrow> (error option \<times> ('m, 'd) memtable_flusher) option" where
  "last_iteration ops m =
     (case loadManifest ops m of
        (Some err, m1) \<Rightarrow> Some (Some err, m1)
      | (None, m1) \<Rightarrow>
          (case writeManifest ops m1 of
             (Some err, m2) \<Rightarrow>
               if errors_is err ErrAlreadyExists then None else Some (Some err, m2)
           | (None, m2) \<Rightarrow> Some (None, m2)))"

section \<open>The sorted-run iterator of package slatedb\<close>

text \<open>
  Modelled from the spec: \<^verbatim>\<open>ValueDeletable\<close>, \<^verbatim>\<open>KeyValueDeletable\<close> and
  \<^verbatim>\<open>KeyValue\<close>, whose declarations are not among the files at hand. The spec has a
  row of a key and a value-or-tombstone, and a key-value pair of a key and a byte
  sequence; \<^verbatim>\<open>Next\<close> reads \<^verbatim>\<open>keyVal.key\<close>, \<^verbatim>\<open>keyVal.valueDel.isTombstone\<close> and
  \<^verbatim>\<open>keyVal.valueDel.value\<close> (here \<open>val\<close>) and builds a pair of \<^verbatim>\<open>key\<close> and
  \<^verbatim>\<open>value\<close> (here \<open>kv_key\<close> and \<open>kv_val\<close>).
\<close>

record value_deletable =
  val :: bytes
  isTombstone :: bool

record key_value_deletable =
  key :: bytes
  valueDel :: value_deletable

record key_value =
  kv_key :: bytes
  kv_val :: bytes

text \<open>
  Modelled from the spec: \<^verbatim>\<open>SSTIterator\<close>, which is not among the files at hand; by
  the spec an iterator over a built table yields its entries in key order. All that the
  sorted-run iterator does with one is to call its \<^verbatim>\<open>NextEntry\<close>, so an SST iterator
  is modelled by the results those calls will give, in order: an entry or an error each,
  and \<^verbatim>\<open>(None, nil)\<close> from the end of the list on. The iterator is held by pointer;
  the call advances it in place.
\<close>

type_synonym sst_iterator = "(error + key_value_deletable) list"

definition sst_NextEntry ::
  "sst_iterator \<Rightarrow> (error + key_value_deletable option) \<times> sst_iterator" where
  "sst_NextEntry kvIter =
     (case kvIter of
        [] \<Rightarrow> (Inr None, [])
      | Inl err # rest \<Rightarrow> (Inl err, rest)
      | Inr kv # rest \<Rightarrow> (Inr (Some kv), rest))"

record sst_list_iterator =
  sstList :: "sst_handle list"
  current :: nat

definition newSSTListIterator :: "sst_handle list \<Rightarrow> sst_list_iterator" where
  "newSSTListIterator ssts = \<lparr>sstList = ssts, current = 0\<rparr>"

definition sst_list_Next :: "sst_list_iterator \<Rightarrow> sst_handle option \<times> sst_list_iterator" where
  "sst_list_Next it =
     (if current it \<ge> length (sstList it) then (None, it)
      else (Some (sstList it ! current it), it\<lparr>current := current it + 1\<rparr>))"

text \<open>
  \<^verbatim>\<open>SortedRunIterator\<close>. Its table store matters only through
  \<^verbatim>\<open>newSSTIterator(&sst, tableStore, ...)\<close>, the iterator over the entries of an SST;
  the field \<open>tableStore\<close> is that function.
\<close>

record sorted_run_iterator =
  currentKVIter :: "sst_iterator option"
  sstListIter :: sst_list_iterator
  tableStore :: "sst_handle \<Rightarrow> sst_iterator"
  numBlocksToFetch :: nat
  numBlocksToBuffer :: nat

function NextEntry ::
  "sorted_run_iterator \<Rightarrow> (error + key_value_deletable option) \<times> sorted_run_iterator" where
  "NextEntry iter =
     (case currentKVIter iter of
        None \<Rightarrow> (Inr None, iter)
      | Some kvIter \<Rightarrow>
          (case sst_NextEntry kvIter of
             (Inl err, kvIter1) \<Rightarrow> (Inl err, iter\<lparr>currentKVIter := Some kvIter1\<rparr>)
           | (Inr (Some kv), kvIter1) \<Rightarrow> (Inr (Some kv), iter\<lparr>currentKVIter := Some kvIter1\<rparr>)
           | (Inr None, kvIter1) \<Rightarrow>
               (case sst_list_Next (sstListIter iter) of
                  (None, listIter1) \<Rightarrow>
                    (Inr None, iter\<lparr>currentKVIter := Some kvIter1, sstListIter := listIter1\<rparr>)
                | (Some sst, listIter1) \<Rightarrow>
                    NextEntry (iter\<lparr>currentKVIter := Some (tableStore iter sst),
                                     sstListIter := listIter1\<rparr>))))"
  by pat_completeness auto
termination
  by (relation "measure (\<lambda>iter. length (sstList (sstListIter iter)) - current (sstListIter iter))")
     (auto simp: sst_list_Next_def split: if_splits)

declare NextEntry.simps [simp del]

text \<open>
  The number of results that the SST iterators still ahead can give: those of the current
  one and of the SSTs not yet opened.
\<close>

definition results_ahead :: "sorted_run_iterator \<Rightarrow> nat" where
  "results_ahead iter =
     (case currentKVIter iter of None \<Rightarrow> 0 | Some kvIter \<Rightarrow> length kvIter) +
     sum_list (map (\<lambda>sst. length (tableStore iter sst))
                (drop (current (sstListIter iter)) (sstList (sstListIter iter))))"

text \<open>
  \<^verbatim>\<open>NextEntry\<close> uses up at least one of the results ahead whenever it returns an entry
  or an error; this is what makes the loop of \<^verbatim>\<open>Next\<close> end.
\<close>

lemma NextEntry_ahead:
  "NextEntry iter = (r, iter1) \<Longrightarrow> currentKVIter iter \<noteq> None \<Longrightarrow>
     results_ahead iter1 \<le> results_ahead iter \<and>
     (r \<noteq> Inr None \<longrightarrow> results_ahead iter1 < results_ahead iter)"
proof (induction iter arbitrary: r iter1 rule: NextEntry.induct)
  case (1 iter)
  from "1.prems"(2) obtain kvIter where cur: "currentKVIter iter = Some kvIter" by auto
  show ?case
  proof (cases kvIter)
    case (Cons x rest)
    then show ?thesis using "1.prems"(1) cur
      by (subst (asm) NextEntry.simps)
         (auto simp: sst_NextEntry_def results_ahead_def split: sum.splits)
  next
    case Nil
    show ?thesis
    proof (cases "current (sstListIter iter) \<ge> length (sstList (sstListIter iter))")
      case True
      then show ?thesis using "1.prems"(1) cur Nil
        by (subst (asm) NextEntry.simps)
           (auto simp: sst_NextEntry_def sst_list_Next_def results_ahead_def)
    next
      case False
      define sst where "sst = sstList (sstListIter iter) ! current (sstListIter iter)"
      define li where "li = (sstListIter iter)\<lparr>current := current (sstListIter iter) + 1\<rparr>"
      define iter2 where "iter2 = iter\<lparr>currentKVIter := Some (tableStore iter sst), sstListIter := li\<rparr>"
      have ln: "sst_list_Next (sstListIter iter) = (Some sst, li)"
        using False by (simp add: sst_list_Next_def sst_def li_def)
      have eq: "NextEntry iter = NextEntry iter2"
        using cur Nil ln by (subst NextEntry.simps) (simp add: sst_NextEntry_def iter2_def)
      have same: "results_ahead iter2 = results_ahead iter"
        using cur Nil False
        by (simp add: results_ahead_def iter2_def li_def sst_def Cons_nth_drop_Suc [symmetric])
      have sn: "(Inr None, []) = sst_NextEntry kvIter"
        using Nil by (simp add: sst_NextEntry_def)
      have "results_ahead iter1 \<le> results_ahead iter2 \<and>
           (r \<noteq> Inr None \<longrightarrow> results_ahead iter1 < results_ahead iter2)"
        unfolding iter2_def
      proof (rule "1.IH" [OF cur sn refl refl ln [symmetric] refl])
        show "NextEntry (iter\<lparr>currentKVIter := Some (tableStore iter sst), sstListIter := li\<rparr>)
            = (r, iter1)"
          using "1.prems"(1) eq by (simp add: iter2_def)
        show "currentKVIter (iter\<lparr>currentKVIter := Some (tableStore iter sst), sstListIter := li\<rparr>)
            \<noteq> None" by simp
      qed
      then show ?thesis using same by simp
    qed
  qed
qed

lemma NextEntry_absent:
  "currentKVIter iter = None \<Longrightarrow> NextEntry iter = (Inr None, iter)"
  by (subst NextEntry.simps) simp

lemma NextEntry_decreases:
  assumes "NextEntry iter = (Inr (Some kv), iter1)"
  shows "results_ahead iter1 < results_ahead iter"
proof (cases "currentKVIter iter")
  case None
  then show ?thesis using assms NextEntry_absent [OF None] by simp
next
  case (Some a)
  then show ?thesis using NextEntry_ahead [OF assms] by simp
qed

text \<open>
  \<^verbatim>\<open>Next\<close>: the loop calls \<^verbatim>\<open>NextEntry\<close> and goes round again on a tombstone.
\<close>

function Next :: "sorted_run_iterator \<Rightarrow> (error + key_value option) \<times> sorted_run_iterator" where
  "Next iter =
     (case NextEntry iter of
        (Inl err, iter1) \<Rightarrow> (Inl err, iter1)
      | (Inr (Some keyVal), iter1) \<Rightarrow>
          if isTombstone (valueDel keyVal) then Next iter1
          else (Inr (Some \<lparr>kv_key = key keyVal, kv_val = val (valueDel keyVal)\<rparr>), iter1)
      | (Inr None, iter1) \<Rightarrow> (Inr None, iter1))"
  by pat_completeness auto
termination
proof (relation "measure results_ahead")
  show "wf (measure results_ahead)" by simp
next
  fix iter :: sorted_run_iterator and x iter1 b keyVal
  assume "(x, iter1) = NextEntry iter" "x = Inr b" "b = Some keyVal"
  then have "NextEntry iter = (Inr (Some keyVal), iter1)" by simp
  then show "(iter1, iter) \<in> measure results_ahead"
    using NextEntry_decreases by simp
qed

declare Next.simps [simp del]


lemma Next_decreases:
  "Next iter = (Inr (Some kv), iter1) \<Longrightarrow> results_ahead iter1 < results_ahead iter"
proof (induction iter arbitrary: kv iter1 rule: Next.induct)
  case (1 iter)
  obtain r iter2 where ne: "NextEntry iter = (r, iter2)" by (cases "NextEntry iter")
  show ?case
  proof (cases r)
    case (Inl err)
    then show ?thesis using "1.prems" ne by (subst (asm) Next.simps) simp
  next
    case (Inr b)
    show ?thesis
    proof (cases b)
      case None
      then show ?thesis using "1.prems" ne Inr by (subst (asm) Next.simps) simp
    next
      case (Some keyVal)
      have dec: "results_ahead iter2 < results_ahead iter"
        using NextEntry_decreases ne Inr Some by simp
      show ?thesis
      proof (cases "isTombstone (valueDel keyVal)")
        case True
        then have "Next iter = Next iter2" using ne Inr Some by (subst Next.simps) simp
        then have "Next iter2 = (Inr (Some kv), iter1)" using "1.prems" by simp
        from "1.IH" [OF ne [symmetric] Inr Some True this] show ?thesis using dec by simp
      next
        case False
        then have "iter1 = iter2" using "1.prems" ne Inr Some by (subst (asm) Next.simps) simp
        then show ?thesis using dec by simp
      qed
    qed
  qed
qed

text \<open>
  What a caller sees who calls \<^verbatim>\<open>NextEntry\<close> (or \<^verbatim>\<open>Next\<close>) again and again until it
  returns absent or an error: the entries in the order of the calls, and how the sequence
  ends (\<open>None\<close>: absent, \<open>Some err\<close>: the error).
\<close>

function entries_ahead :: "sorted_run_iterator \<Rightarrow> key_value_deletable list \<times> error option" where
  "entries_ahead iter =
     (case NextEntry iter of
        (Inl err, iter1) \<Rightarrow> ([], Some err)
      | (Inr None, iter1) \<Rightarrow> ([], None)
      | (Inr (Some kv), iter1) \<Rightarrow>
          (case entries_ahead iter1 of (kvs, fin) \<Rightarrow> (kv # kvs, fin)))"
  by pat_completeness auto
termination
proof (relation "measure results_ahead")
  show "wf (measure results_ahead)" by simp
next
  fix iter :: sorted_run_iterator and x iter1 b kv
  assume "(x, iter1) = NextEntry iter" "x = Inr b" "b = Some kv"
  then have "NextEntry iter = (Inr (Some kv), iter1)" by simp
  then show "(iter1, iter) \<in> measure results_ahead"
    using NextEntry_decreases by simp
qed

declare entries_ahead.simps [simp del]

function kvs_ahead :: "sorted_run_iterator \<Rightarrow> key_value list \<times> error option" where
  "kvs_ahead iter =
     (case Next iter of
        (Inl err, iter1) \<Rightarrow> ([], Some err)
      | (Inr None, iter1) \<Rightarrow> ([], None)
      | (Inr (Some kv), iter1) \<Rightarrow>
          (case kvs_ahead iter1 of (kvs, fin) \<Rightarrow> (kv # kvs, fin)))"
  by pat_completeness auto
termination
proof (relation "measure results_ahead")
  show "wf (measure results_ahead)" by simp
next
  fix iter :: sorted_run_iterator and x iter1 b kv
  assume "(x, iter1) = Next iter" "x = Inr b" "b = Some kv"
  then have "Next iter = (Inr (Some kv), iter1)" by simp
  then show "(iter1, iter) \<in> measure results_ahead"
    using Next_decreases by simp
qed

declare kvs_ahead.simps [simp del]

text \<open>The entries that are not tombstones, and the conversion that \<^verbatim>\<open>Next\<close> applies.\<close>

definition live :: "key_value_deletable \<Rightarrow> bool" where
  "live keyVal = (\<not> isTombstone (valueDel keyVal))"

definition toKeyValue :: "key_value_deletable \<Rightarrow> key_value" where
  "toKeyValue keyVal = \<lparr>kv_key = key keyVal, kv_val = val (valueDel keyVal)\<rparr>"

text \<open>A run of two SSTs with three entries, one of them a tombstone, for concrete runs.\<close>

definition example_run_iterator :: sorted_run_iterator where
  "example_run_iterator =
     \<lparr>currentKVIter = Some [Inr \<lparr>key = ''a'', valueDel = \<lparr>val = ''1'', isTombstone = False\<rparr>\<rparr>,
                             Inr \<lparr>key = ''b'', valueDel = \<lparr>val = [], isTombstone = True\<rparr>\<rparr>],
      sstListIter = \<lparr>sstList = map handle_with_first_key [''a'', ''c''], current = 1\<rparr>,
      tableStore = (\<lambda>sst. if first_key (info sst) = ''c''
                           then [Inr \<lparr>key = ''c'', valueDel = \<lparr>val = [], isTombstone = False\<rparr>\<rparr>]
                           else []),
      numBlocksToFetch = 1, numBlocksToBuffer = 1\<rparr>"

section \<open>The WAL flush path\<close>

subsection \<open>Rows and in-memory tables\<close>

text \<open>
  A Go \<^verbatim>\<open>[]byte\<close> that carries a value is either \<^verbatim>\<open>nil\<close> or a slice with contents;
  both the \<^verbatim>\<open>nil\<close> slice and the slice without contents have length 0.
\<close>

datatype byte_slice = Nil_slice | Slice bytes

fun slice_len :: "byte_slice \<Rightarrow> nat" where
  "slice_len Nil_slice = 0"
| "slice_len (Slice bs) = length bs"

text \<open>
  Modelled from the spec: \<^verbatim>\<open>types.Value\<close>, which is not among the files at hand. The
  spec's value is a byte sequence or a tombstone; the flush code reads
  \<^verbatim>\<open>kv.Value.Value\<close> (here the field \<open>Data\<close>) and asks \<^verbatim>\<open>kv.Value.IsTombstone()\<close>.
\<close>

datatype row_kind = KindKeyValue | KindTombStone

record row_value =
  Data :: byte_slice
  Kind :: row_kind

text \<open>
  Modelled from the spec: \<^verbatim>\<open>Value.IsTombstone\<close>, which is not among the files at hand:
  the value is the tombstone.
\<close>

definition IsTombstone :: "row_value \<Rightarrow> bool" where
  "IsTombstone v = (Kind v = KindTombStone)"

text \<open>
  Modelled from the spec: \<^verbatim>\<open>types.RowEntry\<close>, which is not among the files at hand:
  the pair of a key and a value-or-tombstone (\<^verbatim>\<open>kv.Key\<close>, \<^verbatim>\<open>kv.Value\<close>).
\<close>

record row_entry =
  Key :: bytes
  Value :: row_value

text \<open>
  Modelled from the spec: \<^verbatim>\<open>KVTable\<close>, which is not among the files at hand: an
  ordered mapping from keys to value-or-tombstone. The rows are kept as a list in
  ascending key order.
\<close>

type_synonym kv_table = "(bytes \<times> row_value) list"

text \<open>
  Modelled from the spec: the insertion behind \<^verbatim>\<open>KVTable.put\<close> and
  \<^verbatim>\<open>KVTable.delete\<close>, which inserts or overwrites.
\<close>

fun upsert :: "bytes \<Rightarrow> row_value \<Rightarrow> kv_table \<Rightarrow> kv_table" where
  "upsert k v [] = [(k, v)]"
| "upsert k v ((k1, v1) # rest) =
     (if k < k1 then (k, v) # (k1, v1) # rest
      else if k = k1 then (k, v) # rest
      else (k1, v1) # upsert k v rest)"

text \<open>
  Modelled from the spec: \<^verbatim>\<open>KVTable.put\<close>, which is not among the files at hand: it
  stores the value it is given under the key.
\<close>

definition kv_put :: "kv_table \<Rightarrow> bytes \<Rightarrow> byte_slice \<Rightarrow> kv_table" where
  "kv_put t k v = upsert k \<lparr>Data = v, Kind = KindKeyValue\<rparr> t"

text \<open>
  Modelled from the spec: \<^verbatim>\<open>KVTable.delete\<close>, which is not among the files at hand: it
  stores a tombstone under the key.
\<close>

definition kv_delete :: "kv_table \<Rightarrow> bytes \<Rightarrow> kv_table" where
  "kv_delete t k = upsert k \<lparr>Data = Nil_slice, Kind = KindTombStone\<rparr> t"

text \<open>
  Modelled from the spec: the size of a \<^verbatim>\<open>KVTable\<close>, which is not among the files at
  hand: the sum of key and value bytes, a tombstone counting as its key.
\<close>

definition kv_size :: "kv_table \<Rightarrow> nat" where
  "kv_size t =
     sum_list (map (\<lambda>(k, v). length k + (if IsTombstone v then 0 else slice_len (Data v))) t)"

text \<open>
  Modelled from the spec: \<^verbatim>\<open>KVTableIterator\<close> and \<^verbatim>\<open>KVTable.iter\<close>, which are not
  among the files at hand: the rows in key order. An iterator is, as for the SST
  iterators, the list of the results that its \<^verbatim>\<open>NextEntry\<close> calls will give; the
  iterator of a table gives no errors.
\<close>

type_synonym kv_iterator = "(error + row_entry) list"

definition kv_iter :: "kv_table \<Rightarrow> kv_iterator" where
  "kv_iter t = map (\<lambda>(k, v). Inr \<lparr>Key = k, Value = v\<rparr>) t"

text \<open>
  \<^verbatim>\<open>WAL\<close> and \<^verbatim>\<open>ImmutableWAL\<close> (wal.go): a WAL wraps a table and passes
  \<^verbatim>\<open>Put\<close> and \<^verbatim>\<open>Delete\<close> on to it; \<^verbatim>\<open>NewImmutableWal(id, wal)\<close> takes the table of
  the WAL under the id. The locks are left out.
\<close>

record immutable_wal =
  wal_id :: nat
  wal_table :: kv_table

definition WAL_Put :: "kv_table \<Rightarrow> bytes \<Rightarrow> byte_slice \<Rightarrow> kv_table" where
  "WAL_Put w k v = kv_put w k v"

definition WAL_Delete :: "kv_table \<Rightarrow> bytes \<Rightarrow> kv_table" where
  "WAL_Delete w k = kv_delete w k"

definition NewImmutableWal :: "nat \<Rightarrow> kv_table \<Rightarrow> immutable_wal" where
  "NewImmutableWal n w = \<lparr>wal_id = n, wal_table = w\<rparr>"

text \<open>
  Modelled from the spec: \<^verbatim>\<open>Memtable\<close> and \<^verbatim>\<open>ImmutableMemtable\<close>, which are not
  among the files at hand: a table and the id of the last immutable WAL merged into it.
\<close>

record memtable =
  mem_table :: kv_table
  last_wal_id :: "nat option"

record immutable_memtable =
  imm_table :: kv_table
  imm_last_wal_id :: nat

text \<open>
  Modelled from the spec: \<^verbatim>\<open>Memtable.Put\<close>, which is not among the files at hand: it
  stores the row, value or tombstone, under its key.
\<close>

definition Memtable_Put :: "memtable \<Rightarrow> row_entry \<Rightarrow> memtable" where
  "Memtable_Put mt e = mt\<lparr>mem_table := upsert (Key e) (Value e) (mem_table mt)\<rparr>"

text \<open>
  Modelled from the spec: \<^verbatim>\<open>Memtable.SetLastWalID\<close>, which is not among the files at
  hand.
\<close>

definition SetLastWalID :: "memtable \<Rightarrow> nat \<Rightarrow> memtable" where
  "SetLastWalID mt n = mt\<lparr>last_wal_id := Some n\<rparr>"

subsection \<open>The SST builder\<close>

text \<open>
  \<^verbatim>\<open>sstable.Builder\<close> is not among the files at hand, and the spec gives the codec by
  contract only. It is a parameter of the model: a type \<open>'b\<close> of builder states with the
  fresh builder, \<^verbatim>\<open>AddValue\<close> and \<^verbatim>\<open>Build\<close>, each of which may fail.
\<close>

record ('b, 'f) builder_ops =
  TableBuilder :: 'b
  AddValue :: "'b \<Rightarrow> bytes \<Rightarrow> byte_slice \<Rightarrow> error + 'b"
  Build :: "'b \<Rightarrow> error + 'f encoded_sst"

text \<open>
  The loop of \<^verbatim>\<open>flushImmTable\<close> over the results of the iterator: it stops at the end
  or at an error of the iterator; a tombstone is added with the \<^verbatim>\<open>nil\<close> slice
  (\<^verbatim>\<open>var val []byte\<close>), any other row with the slice it holds; an error of
  \<^verbatim>\<open>AddValue\<close> is returned.
\<close>

fun add_rows :: "('b, 'f) builder_ops \<Rightarrow> 'b \<Rightarrow> kv_iterator \<Rightarrow> error + 'b" where
  "add_rows ops sstBuilder [] = Inr sstBuilder"
| "add_rows ops sstBuilder (Inl err # rest) = Inr sstBuilder"
| "add_rows ops sstBuilder (Inr kv # rest) =
     (let v = (if \<not> IsTombstone (Value kv) then Data (Value kv) else Nil_slice)
      in case AddValue ops sstBuilder (Key kv) v of
           Inl err \<Rightarrow> Inl err
         | Inr sstBuilder1 \<Rightarrow> add_rows ops sstBuilder1 rest)"

definition flushImmTable ::
  "('b, 'f) builder_ops \<Rightarrow> 'f table_store \<Rightarrow> sstable_id \<Rightarrow> kv_iterator
     \<Rightarrow> (error + sst_handle) \<times> 'f table_store" where
  "flushImmTable ops ts sid iter =
     (case add_rows ops (TableBuilder ops) iter of
        Inl err \<Rightarrow> (Inl err, ts)
      | Inr sstBuilder \<Rightarrow>
          (case Build ops sstBuilder of
             Inl err \<Rightarrow> (Inl err, ts)
           | Inr encodedSST \<Rightarrow>
               (case WriteSST ts sid encodedSST of
                  (Inl err, ts1) \<Rightarrow> (Inl err, ts1)
                | (Inr sst, ts1) \<Rightarrow> (Inr sst, ts1))))"

subsection \<open>The state of the database\<close>

text \<open>
  The calls that \<^verbatim>\<open>FlushWAL\<close> and \<^verbatim>\<open>flushImmWALs\<close> make, for the order in which they
  happen. The durability signal is given to the table of an immutable WAL that has left
  the queue by then, so the state keeps the signal as an event.
\<close>

datatype event =
    EvFreezeWAL
  | EvFlushImmWAL nat
  | EvPopImmWAL nat
  | EvFlushImmWALToMemtable nat
  | EvMaybeFreezeMemtable nat
  | EvNotifyWALFlushed nat

text \<open>
  Modelled from the spec: the state behind \<^verbatim>\<open>db.state\<close>, which is not among the files
  at hand: the mutable WAL, the queue of immutable WALs (oldest first), the memtable, the
  queue of immutable memtables and the next WAL id. With it the table store of the
  database, the option \<^verbatim>\<open>L0SSTBytes\<close> and the events so far.
\<close>

record 'f database =
  wal :: kv_table
  imm_wals :: "immutable_wal list"
  mem :: memtable
  imm_memtables :: "immutable_memtable list"
  next_wal_sst_id :: nat
  table_store :: "'f table_store"
  L0SSTBytes :: nat
  events :: "event list"

definition record_event :: "event \<Rightarrow> 'f database \<Rightarrow> 'f database" where
  "record_event ev d = d\<lparr>events := events d @ [ev]\<rparr>"

text \<open>
  Modelled from the spec: \<^verbatim>\<open>FreezeWAL\<close>, which is not among the files at hand: it does
  nothing on an empty WAL; otherwise it puts the WAL at the tail of the queue under the
  next WAL id, installs an empty WAL and increments the id.
\<close>

definition FreezeWAL :: "'f database \<Rightarrow> 'f database" where
  "FreezeWAL d =
     (if wal d = [] then d
      else d\<lparr>imm_wals := imm_wals d @ [NewImmutableWal (next_wal_sst_id d) (wal d)],
             wal := [],
             next_wal_sst_id := next_wal_sst_id d + 1\<rparr>)"

text \<open>
  Modelled from the spec: \<^verbatim>\<open>OldestImmWAL\<close>, which is not among the files at hand: the
  head of the queue, if there is one.
\<close>

definition OldestImmWAL :: "'f database \<Rightarrow> immutable_wal option" where
  "OldestImmWAL d = (case imm_wals d of [] \<Rightarrow> None | w # ws \<Rightarrow> Some w)"

text \<open>
  Modelled from the spec: \<^verbatim>\<open>PopImmWAL\<close>, which is not among the files at hand: it
  removes the head of the queue.
\<close>

definition PopImmWAL :: "'f database \<Rightarrow> 'f database" where
  "PopImmWAL d = d\<lparr>imm_wals := tl (imm_wals d)\<rparr>"

text \<open>
  Modelled from the spec: \<^verbatim>\<open>maybeFreezeMemtable\<close>, which is not among the files at
  hand: it moves a memtable of at least \<^verbatim>\<open>L0SSTBytes\<close> bytes to the tail of the queue
  of immutable memtables, with the WAL id it is given, and installs an empty one.
\<close>

definition maybeFreezeMemtable :: "'f database \<Rightarrow> nat \<Rightarrow> 'f database" where
  "maybeFreezeMemtable d walID =
     (if kv_size (mem_table (mem d)) < L0SSTBytes d then d
      else d\<lparr>imm_memtables :=
                imm_memtables d @ [\<lparr>imm_table = mem_table (mem d), imm_last_wal_id = walID\<rparr>],
             mem := \<lparr>mem_table = [], last_wal_id = None\<rparr>\<rparr>)"

text \<open>
  Modelled from the spec: the decimal numeral of an id, for \<^verbatim>\<open>sstable.NewIDWal\<close>.
\<close>

function decimal :: "nat \<Rightarrow> string" where
  "decimal n =
     (if n < 10 then [char_of (of_char CHR ''0'' + n)]
      else decimal (n div 10) @ [char_of (of_char CHR ''0'' + n mod 10)])"
  by pat_completeness auto
termination
  by (relation "measure (\<lambda>n. n)") auto

declare decimal.simps [simp del]

text \<open>
  Modelled from the spec: \<^verbatim>\<open>sstable.NewIDWal\<close>, which is not among the files at hand;
  the object of a WAL SST is \<^verbatim>\<open><root>/wal/<decimal-u64-id>.sst\<close>, so the value of the
  id is the decimal numeral.
\<close>

definition NewIDWal :: "nat \<Rightarrow> sstable_id" where
  "NewIDWal n = \<lparr>id_type = WAL, id_value = decimal n\<rparr>"

subsection \<open>Flushing the immutable WALs\<close>

definition flushImmWAL ::
  "('b, 'f) builder_ops \<Rightarrow> 'f database \<Rightarrow> immutable_wal
     \<Rightarrow> (error + sst_handle) \<times> 'f database" where
  "flushImmWAL ops d immWAL =
     (let walID = NewIDWal (wal_id immWAL);
          (r, ts) = flushImmTable ops (table_store d) walID (kv_iter (wal_table immWAL))
      in (r, d\<lparr>table_store := ts\<rparr>))"

text \<open>
  The loop of \<^verbatim>\<open>flushImmWALToMemtable\<close> puts every entry into the memtable until the
  iterator ends or fails; then the memtable takes the id of the WAL.
\<close>

fun put_rows :: "memtable \<Rightarrow> kv_iterator \<Rightarrow> memtable" where
  "put_rows mt [] = mt"
| "put_rows mt (Inl err # rest) = mt"
| "put_rows mt (Inr e # rest) = put_rows (Memtable_Put mt e) rest"

definition flushImmWALToMemtable :: "immutable_wal \<Rightarrow> memtable \<Rightarrow> memtable" where
  "flushImmWALToMemtable immWal mt =
     SetLastWalID (put_rows mt (kv_iter (wal_table immWal))) (wal_id immWal)"

text \<open>
  One round of the loop of \<^verbatim>\<open>flushImmWALs\<close> on the oldest immutable WAL, in the order
  of the statements: \<^verbatim>\<open>flushImmWAL\<close>, and on its error the return; then
  \<^verbatim>\<open>PopImmWAL\<close>, \<^verbatim>\<open>flushImmWALToMemtable\<close>, \<^verbatim>\<open>maybeFreezeMemtable\<close> and
  \<^verbatim>\<open>NotifyWALFlushed\<close>.
\<close>

definition flush_oldest ::
  "('b, 'f) builder_ops \<Rightarrow> 'f database \<Rightarrow> immutable_wal \<Rightarrow> error option \<times> 'f database" where
  "flush_oldest ops d immWal =
     (case flushImmWAL ops (record_event (EvFlushImmWAL (wal_id immWal)) d) immWal of
        (Inl err, d1) \<Rightarrow> (Some err, d1)
      | (Inr sst, d1) \<Rightarrow>
          (let d2 = record_event (EvPopImmWAL (wal_id immWal)) (PopImmWAL d1);
               d3 = record_event (EvFlushImmWALToMemtable (wal_id immWal))
                      (d2\<lparr>mem := flushImmWALToMemtable immWal (mem d2)\<rparr>);
               d4 = record_event (EvMaybeFreezeMemtable (wal_id immWal))
                      (maybeFreezeMemtable d3 (wal_id immWal));
               d5 = record_event (EvNotifyWALFlushed (wal_id immWal)) d4
           in (None, d5)))"

text \<open>A round that succeeds takes the WAL it flushed off the queue.\<close>

lemma flush_oldest_imm_wals:
  "flush_oldest ops d immWal = (None, d1) \<Longrightarrow> imm_wals d1 = tl (imm_wals d)"
  by (auto simp: flush_oldest_def flushImmWAL_def record_event_def PopImmWAL_def
      maybeFreezeMemtable_def Let_def split: prod.splits sum.splits)

lemma flush_oldest_shortens:
  assumes "OldestImmWAL d = Some immWal" and "flush_oldest ops d immWal = (None, d1)"
  shows "length (imm_wals d1) < length (imm_wals d)"
proof -
  have "imm_wals d \<noteq> []" using assms(1) by (auto simp: OldestImmWAL_def)
  then show ?thesis using flush_oldest_imm_wals [OF assms(2)] by simp
qed

text \<open>
  \<^verbatim>\<open>flushImmWALs\<close>: the loop takes the oldest immutable WAL until there is none, and
  returns the first error.
\<close>

function flushImmWALs ::
  "('b, 'f) builder_ops \<Rightarrow> 'f database \<Rightarrow> error option \<times> 'f database" where
  "flushImmWALs ops d =
     (case OldestImmWAL d of
        None \<Rightarrow> (None, d)
      | Some immWal \<Rightarrow>
          (case flush_oldest ops d immWal of
             (Some err, d1) \<Rightarrow> (Some err, d1)
           | (None, d1) \<Rightarrow> flushImmWALs ops d1))"
  by pat_completeness auto
termination
proof (relation "measure (\<lambda>(ops, d). length (imm_wals d))", goal_cases)
  case 1
  show ?case by simp
next
  case (2 ops d immWal x d1)
  then have "flush_oldest ops d immWal = (None, d1)" by simp
  from flush_oldest_shortens [OF 2(1) this] show ?case by simp
qed

declare flushImmWALs.simps [simp del]

text \<open>
  Contexts carry deadlines and cancellation; the model of the object store decides by
  itself whether an upload fails, so a context is only passed along.
\<close>

datatype go_context = Background | WithTimeout go_context nat

definition FlushWAL ::
  "('b, 'f) builder_ops \<Rightarrow> go_context \<Rightarrow> 'f database \<Rightarrow> error option \<times> 'f database" where
  "FlushWAL ops ctx d = flushImmWALs ops (record_event EvFreezeWAL (FreezeWAL d))"

subsection \<open>The WAL flush task\<close>

text \<open>
  The goroutine of \<^verbatim>\<open>spawnWALFlushTask\<close> waits in a \<^verbatim>\<open>select\<close> on the ticker and on
  the channel \<^verbatim>\<open>walFlushNotifierCh\<close>, which carries contexts. A run of the task is given
  by the wakes that the \<^verbatim>\<open>select\<close> delivers, in order. The result is the state, the
  wakes that were not served, and whether the goroutine has returned; when the wakes are
  used up it is blocked in the \<^verbatim>\<open>select\<close> and has not returned. An error of
  \<^verbatim>\<open>FlushWAL\<close> is logged and otherwise ignored.
\<close>

datatype wake = Tick | Notified go_context

fun walFlushTask ::
  "('b, 'f) builder_ops \<Rightarrow> nat \<Rightarrow> wake list \<Rightarrow> 'f database
     \<Rightarrow> 'f database \<times> wake list \<times> bool" where
  "walFlushTask ops FlushInterval [] d = (d, [], False)"
| "walFlushTask ops FlushInterval (Tick # rest) d =
     walFlushTask ops FlushInterval rest
       (snd (FlushWAL ops (WithTimeout Background FlushInterval) d))"
| "walFlushTask ops FlushInterval (Notified ctx # rest) d =
     (snd (FlushWAL ops ctx d), rest, True)"

text \<open>
  A builder for concrete runs: it collects the rows it is given, and builds a table with
  one block that lists the keys and says of each whether its value had length 0.
\<close>

definition listing_builder :: "((bytes \<times> byte_slice) list, unit) builder_ops" where
  "listing_builder =
     \<lparr>TableBuilder = [],
      AddValue = (\<lambda>b k v. Inr (b @ [(k, v)])),
      Build = (\<lambda>b. Inr \<lparr>blocks = [concat (map (\<lambda>(k, v). k @ (if slice_len v = 0 then ''-'' else ''+'')) b)],
                          bloom = None,
                          table_info = \<lparr>first_key = (case b of [] \<Rightarrow> [] | (k, v) # rest \<Rightarrow> k)\<rparr>\<rparr>)\<rparr>"

text \<open>A database with the given mutable WAL and nothing else, over an empty store.\<close>

definition database_with_wal :: "kv_table \<Rightarrow> unit database" where
  "database_with_wal w =
     \<lparr>wal = w, imm_wals = [], mem = \<lparr>mem_table = [], last_wal_id = None\<rparr>,
      imm_memtables = [], next_wal_sst_id = 1, table_store = store_listing [] None,
      L0SSTBytes = 1024, events = []\<rparr>"

text \<open>
  The events of one round on the immutable WAL \<open>w\<close> that succeeds, and whether an event
  occurs in a list of events after the first occurrence of another.
\<close>

definition round_events :: "immutable_wal \<Rightarrow> event list" where
  "round_events w =
     [EvFlushImmWAL (wal_id w), EvPopImmWAL (wal_id w), EvFlushImmWALToMemtable (wal_id w),
      EvMaybeFreezeMemtable (wal_id w), EvNotifyWALFlushed (wal_id w)]"

definition occurs_after :: "event \<Rightarrow> event \<Rightarrow> event list \<Rightarrow> bool" where
  "occurs_after later earlier evs =
     (later \<in> set (drop 1 (dropWhile (\<lambda>e. e \<noteq> earlier) evs)))"

definition freezes :: "event list \<Rightarrow> nat" where
  "freezes evs = length (filter (\<lambda>e. e = EvFreezeWAL) evs)"

text \<open>The same database over a store every upload to which fails.\<close>

definition database_on_failing_store :: "kv_table \<Rightarrow> unit database" where
  "database_on_failing_store w = (database_with_wal w)\<lparr>table_store := store_failing_uploads\<rparr>"

subsection \<open>Writes and reads of the database\<close>
















section \<open>The sorted-run iterator of package compaction\<close>

text \<open>
  Modelled from the spec: \<^verbatim>\<open>types.KeyValue\<close>, which is not among the files at hand;
  the spec's KeyValue is a pair of a key and a byte sequence.
\<close>

record types_key_value =
  KVKey :: bytes
  KVValue :: byte_slice

text \<open>
  Modelled from the spec: \<^verbatim>\<open>types.ErrWarn\<close>, which is not among the files at hand and
  of which the spec says nothing; the iterator merges the warnings of an SST iterator into
  it and adds one when an SST iterator cannot be created. It is modelled as the list of
  the warnings collected.
\<close>

datatype warning = IteratorWarning string | CreatingIterator error

text \<open>
  Modelled from the spec: \<^verbatim>\<open>sstable.Iterator\<close>, which is not among the files at hand;
  by the spec an iterator over a built table yields its entries in key order. All that the
  sorted-run iterator does with one is to call \<^verbatim>\<open>NextEntry\<close>, which returns an entry
  and \<^verbatim>\<open>true\<close> or, from some call on, \<^verbatim>\<open>false\<close>, and \<^verbatim>\<open>Warnings\<close>. It is modelled
  by the entries still to come and the warnings it reports.
\<close>

record table_iterator =
  pending :: "row_entry list"
  warnings :: "warning list"

definition table_NextEntry :: "table_iterator \<Rightarrow> row_entry option \<times> table_iterator" where
  "table_NextEntry kvIter =
     (case pending kvIter of
        [] \<Rightarrow> (None, kvIter)
      | kv # rest \<Rightarrow> (Some kv, kvIter\<lparr>pending := rest\<rparr>))"

text \<open>
  \<^verbatim>\<open>SortedRunIterator\<close> of package compaction. Its table store matters only through
  \<^verbatim>\<open>sstable.NewIterator(&sst, iter.tableStore)\<close>, which gives an iterator or an error;
  the field \<open>newIterator\<close> is that function.
\<close>

record compaction_run_iterator =
  currentIter :: "table_iterator option"
  handlesIter :: sst_list_iterator
  newIterator :: "sst_handle \<Rightarrow> error + table_iterator"
  warn :: "warning list"

function compaction_NextEntry ::
  "compaction_run_iterator \<Rightarrow> row_entry option \<times> compaction_run_iterator" where
  "compaction_NextEntry iter =
     (case currentIter iter of
        None \<Rightarrow> (None, iter)
      | Some kvIter \<Rightarrow>
          (case table_NextEntry kvIter of
             (Some kv, kvIter1) \<Rightarrow> (Some kv, iter\<lparr>currentIter := Some kvIter1\<rparr>)
           | (None, kvIter1) \<Rightarrow>
               (let iter1 = iter\<lparr>currentIter := Some kvIter1,
                                 warn := warn iter @ warnings kvIter1\<rparr>
                in case sst_list_Next (handlesIter iter1) of
                     (None, listIter1) \<Rightarrow>
                       (None, iter1\<lparr>handlesIter := listIter1,
                                     warn := warn iter1 @ warnings kvIter1\<rparr>)
                   | (Some sst, listIter1) \<Rightarrow>
                       (case newIterator iter1 sst of
                          Inl err \<Rightarrow>
                            (None, iter1\<lparr>handlesIter := listIter1,
                                          warn := warn iter1 @ [CreatingIterator err]\<rparr>)
                        | Inr newKVIter \<Rightarrow>
                            compaction_NextEntry
                              (iter1\<lparr>handlesIter := listIter1,
                                     currentIter := Some newKVIter\<rparr>)))))"
  by pat_completeness auto
termination
  by (relation "measure (\<lambda>iter. length (sstList (handlesIter iter)) - current (handlesIter iter))")
     (auto simp: sst_list_Next_def split: if_splits)

declare compaction_NextEntry.simps [simp del]

text \<open>The number of entries that the table iterators still ahead can give.\<close>

definition pending_ahead :: "compaction_run_iterator \<Rightarrow> nat" where
  "pending_ahead iter =
     (case currentIter iter of None \<Rightarrow> 0 | Some kvIter \<Rightarrow> length (pending kvIter)) +
     sum_list (map (\<lambda>sst. case newIterator iter sst of Inl err \<Rightarrow> 0
                                                       | Inr kvIter \<Rightarrow> length (pending kvIter))
                (drop (current (handlesIter iter)) (sstList (handlesIter iter))))"

text \<open>
  \<^verbatim>\<open>NextEntry\<close> uses up one of the entries ahead whenever it returns one; this is what
  makes the loop of \<^verbatim>\<open>Next\<close> end.
\<close>

lemma compaction_NextEntry_ahead:
  "compaction_NextEntry iter = (r, iter1) \<Longrightarrow>
     pending_ahead iter1 \<le> pending_ahead iter \<and>
     (r \<noteq> None \<longrightarrow> pending_ahead iter1 < pending_ahead iter)"
proof (induction iter arbitrary: r iter1 rule: compaction_NextEntry.induct)
  case (1 iter)
  show ?case
  proof (cases "currentIter iter")
    case None
    then show ?thesis using "1.prems"
      by (subst (asm) compaction_NextEntry.simps) simp
  next
    case (Some kvIter)
    show ?thesis
    proof (cases "pending kvIter")
      case (Cons kv rest)
      then show ?thesis using "1.prems" Some
        by (subst (asm) compaction_NextEntry.simps)
           (auto simp: table_NextEntry_def pending_ahead_def)
    next
      case Nil
      define iter2 where "iter2 = iter\<lparr>currentIter := Some kvIter, warn := warn iter @ warnings kvIter\<rparr>"
      have tn: "table_NextEntry kvIter = (None, kvIter)" using Nil by (simp add: table_NextEntry_def)
      show ?thesis
      proof (cases "current (handlesIter iter) \<ge> length (sstList (handlesIter iter))")
        case True
        then show ?thesis using "1.prems" Some Nil
          by (subst (asm) compaction_NextEntry.simps)
             (auto simp: table_NextEntry_def sst_list_Next_def pending_ahead_def Let_def)
      next
        case False
        define sst where "sst = sstList (handlesIter iter) ! current (handlesIter iter)"
        define li where "li = (handlesIter iter)\<lparr>current := current (handlesIter iter) + 1\<rparr>"
        have ln: "sst_list_Next (handlesIter iter2) = (Some sst, li)"
          using False by (simp add: sst_list_Next_def sst_def li_def iter2_def)
        have dr: "drop (current (handlesIter iter)) (sstList (handlesIter iter))
            = sst # drop (Suc (current (handlesIter iter))) (sstList (handlesIter iter))"
          using False by (simp add: sst_def Cons_nth_drop_Suc)
        show ?thesis
        proof (cases "newIterator iter sst")
          case (Inl err)
          then show ?thesis using "1.prems" Some Nil False dr
            by (subst (asm) compaction_NextEntry.simps)
               (auto simp: table_NextEntry_def sst_list_Next_def pending_ahead_def Let_def sst_def)
        next
          case (Inr newKVIter)
          define iter3 where "iter3 = iter2\<lparr>handlesIter := li, currentIter := Some newKVIter\<rparr>"
          have eq: "compaction_NextEntry iter = compaction_NextEntry iter3"
            using Some tn ln Inr
            by (subst compaction_NextEntry.simps)
               (simp add: iter2_def iter3_def Let_def)
          have same: "pending_ahead iter3 = pending_ahead iter"
            using Some Nil dr Inr
            by (simp add: pending_ahead_def iter3_def iter2_def li_def)
          have ni: "newIterator iter2 sst = Inr newKVIter" using Inr by (simp add: iter2_def)
          have "pending_ahead iter1 \<le> pending_ahead iter3 \<and>
               (r \<noteq> None \<longrightarrow> pending_ahead iter1 < pending_ahead iter3)"
            unfolding iter3_def
          proof (rule "1.IH" [OF Some tn [symmetric] refl iter2_def ln [symmetric] refl ni])
            show "compaction_NextEntry (iter2\<lparr>handlesIter := li, currentIter := Some newKVIter\<rparr>) = (r, iter1)"
              using "1.prems" eq by (simp add: iter3_def)
          qed
          then show ?thesis using same by simp
        qed
      qed
    qed
  qed
qed

lemma compaction_NextEntry_decreases:
  "compaction_NextEntry iter = (Some kv, iter1) \<Longrightarrow> pending_ahead iter1 < pending_ahead iter"
  using compaction_NextEntry_ahead [of iter "Some kv" iter1] by simp

text \<open>
  \<^verbatim>\<open>Next\<close> of package compaction: the loop calls \<^verbatim>\<open>NextEntry\<close>, returns
  \<^verbatim>\<open>false\<close> when that does, and goes round again on a tombstone.
\<close>

function compaction_Next ::
  "compaction_run_iterator \<Rightarrow> types_key_value option \<times> compaction_run_iterator" where
  "compaction_Next iter =
     (case compaction_NextEntry iter of
        (None, iter1) \<Rightarrow> (None, iter1)
      | (Some keyVal, iter1) \<Rightarrow>
          if IsTombstone (Value keyVal) then compaction_Next iter1
          else (Some \<lparr>KVKey = Key keyVal, KVValue = Data (Value keyVal)\<rparr>, iter1))"
  by pat_completeness auto
termination
proof (relation "measure pending_ahead", goal_cases)
  case 1
  show ?case by simp
next
  case (2 iter x iter1 keyVal)
  then have "compaction_NextEntry iter = (Some keyVal, iter1)" by simp
  from compaction_NextEntry_decreases [OF this] show ?case by simp
qed

declare compaction_Next.simps [simp del]

lemma compaction_Next_decreases:
  "compaction_Next iter = (Some kv, iter1) \<Longrightarrow> pending_ahead iter1 < pending_ahead iter"
proof (induction iter arbitrary: kv iter1 rule: compaction_Next.induct)
  case (1 iter)
  obtain r iter2 where ne: "compaction_NextEntry iter = (r, iter2)"
    by (cases "compaction_NextEntry iter")
  show ?case
  proof (cases r)
    case None
    then show ?thesis using "1.prems" ne by (subst (asm) compaction_Next.simps) simp
  next
    case (Some keyVal)
    have dec: "pending_ahead iter2 < pending_ahead iter"
      using compaction_NextEntry_decreases ne Some by simp
    show ?thesis
    proof (cases "IsTombstone (Value keyVal)")
      case True
      then have "compaction_Next iter = compaction_Next iter2"
        using ne Some by (subst compaction_Next.simps) simp
      then have "compaction_Next iter2 = (Some kv, iter1)" using "1.prems" by simp
      from "1.IH" [OF ne [symmetric] Some True this] show ?thesis using dec by simp
    next
      case False
      then have "iter1 = iter2" using "1.prems" ne Some
        by (subst (asm) compaction_Next.simps) simp
      then show ?thesis using dec by simp
    qed
  qed
qed

text \<open>
  What a caller sees who calls \<^verbatim>\<open>NextEntry\<close> (or \<^verbatim>\<open>Next\<close>) again and again until it
  returns \<^verbatim>\<open>false\<close>: the entries in the order of the calls.
\<close>

function rows_ahead :: "compaction_run_iterator \<Rightarrow> row_entry list" where
  "rows_ahead iter =
     (case compaction_NextEntry iter of
        (None, iter1) \<Rightarrow> []
      | (Some kv, iter1) \<Rightarrow> kv # rows_ahead iter1)"
  by pat_completeness auto
termination
proof (relation "measure pending_ahead", goal_cases)
  case 1
  show ?case by simp
next
  case (2 iter x iter1 kv)
  then have "compaction_NextEntry iter = (Some kv, iter1)" by simp
  from compaction_NextEntry_decreases [OF this] show ?case by simp
qed

declare rows_ahead.simps [simp del]

function pairs_ahead :: "compaction_run_iterator \<Rightarrow> types_key_value list" where
  "pairs_ahead iter =
     (case compaction_Next iter of
        (None, iter1) \<Rightarrow> []
      | (Some kv, iter1) \<Rightarrow> kv # pairs_ahead iter1)"
  by pat_completeness auto
termination
proof (relation "measure pending_ahead", goal_cases)
  case 1
  show ?case by simp
next
  case (2 iter x iter1 kv)
  then have "compaction_Next iter = (Some kv, iter1)" by simp
  from compaction_Next_decreases [OF this] show ?case by simp
qed

declare pairs_ahead.simps [simp del]

text \<open>The rows that are not tombstones, and the conversion that \<^verbatim>\<open>Next\<close> applies.\<close>

definition live_row :: "row_entry \<Rightarrow> bool" where
  "live_row keyVal = (\<not> IsTombstone (Value keyVal))"

definition rowToKeyValue :: "row_entry \<Rightarrow> types_key_value" where
  "rowToKeyValue keyVal = \<lparr>KVKey = Key keyVal, KVValue = Data (Value keyVal)\<rparr>"

text \<open>
  A run of two SSTs for concrete runs: the first holds a row and a tombstone, the second
  a row with an empty value.
\<close>

definition example_compaction_iterator :: compaction_run_iterator where
  "example_compaction_iterator =
     \<lparr>currentIter = Some \<lparr>pending = [\<lparr>Key = ''a'', Value = \<lparr>Data = Slice ''1'', Kind = KindKeyValue\<rparr>\<rparr>,
                                      \<lparr>Key = ''b'', Value = \<lparr>Data = Nil_slice, Kind = KindTombStone\<rparr>\<rparr>],
                           warnings = []\<rparr>,
      handlesIter = \<lparr>sstList = map handle_with_first_key [''a'', ''c''], current = 1\<rparr>,
      newIterator = (\<lambda>sst. Inr \<lparr>pending = (if first_key (info sst) = ''c''
                                              then [\<lparr>Key = ''c'', Value = \<lparr>Data = Slice [], Kind = KindKeyValue\<rparr>\<rparr>]
                                              else []),
                                   warnings = []\<rparr>),
      warn = []\<rparr>"

section \<open>Properties of the sorted-run lookup\<close>

lemma bytes_compare_pos: "bytes_compare a b > 0 \<longleftrightarrow> b < a"
  by (auto simp: bytes_compare_def)

lemma scan_from_spec:
  "i < length ssts \<Longrightarrow>
     i \<le> scan_from ssts target i \<and> scan_from ssts target i \<le> length ssts \<and>
     (\<forall>j. i \<le> j \<and> j < scan_from ssts target i \<longrightarrow> \<not> target < first_key (info (ssts ! j))) \<and>
     (scan_from ssts target i < length ssts \<longrightarrow>
        target < first_key (info (ssts ! scan_from ssts target i)))"
proof (induction ssts target i rule: scan_from.induct)
  case (1 ssts target i)
  show ?case
  proof (cases "bytes_compare (first_key (info (ssts ! i))) target > 0")
    case True
    then have "scan_from ssts target i = i" using "1.prems" by (subst scan_from.simps) simp
    then show ?thesis using True "1.prems" by (auto simp add: bytes_compare_pos)
  next
    case False
    note nP = this
    show ?thesis
    proof (cases "int i = int (length ssts) - 1")
      case True
      then have "scan_from ssts target i = i + 1" using nP "1.prems" by (subst scan_from.simps) simp
      moreover have "i + 1 = length ssts" using True by linarith
      moreover have "\<not> target < first_key (info (ssts ! j))" if "i \<le> j" "j < i + 1" for j
      proof -
        have "j = i" using that by simp
        then show ?thesis using nP by (simp add: bytes_compare_pos)
      qed
      ultimately show ?thesis by simp
    next
      case False
      then have lt: "i + 1 < length ssts" using "1.prems" by linarith
      have eq: "scan_from ssts target i = scan_from ssts target (i + 1)"
        using nP False "1.prems" by (subst scan_from.simps) simp
      have IH: "i + 1 \<le> scan_from ssts target (i + 1) \<and> scan_from ssts target (i + 1) \<le> length ssts \<and>
     (\<forall>j. i + 1 \<le> j \<and> j < scan_from ssts target (i + 1) \<longrightarrow> \<not> target < first_key (info (ssts ! j))) \<and>
     (scan_from ssts target (i + 1) < length ssts \<longrightarrow>
        target < first_key (info (ssts ! scan_from ssts target (i + 1))))"
        using "1.IH" nP False "1.prems" lt by simp
      have "\<not> target < first_key (info (ssts ! j))" if "i \<le> j" "j < scan_from ssts target (i + 1)" for j
      proof (cases "j = i")
        case True then show ?thesis using nP by (simp add: bytes_compare_pos)
      next
        case False then show ?thesis using that IH by auto
      qed
      then show ?thesis unfolding eq using IH by auto
    qed
  qed
qed

lemma strictly_ascending_nth:
  "strictly_ascending ssts \<Longrightarrow> i < j \<Longrightarrow> j < length ssts \<Longrightarrow>
     first_key (info (ssts ! i)) < first_key (info (ssts ! j))"
  by (simp add: strictly_ascending_def first_keys_def sorted_wrt_iff_nth_less)

lemma strictly_ascending_nth_le:
  "strictly_ascending ssts \<Longrightarrow> i \<le> j \<Longrightarrow> j < length ssts \<Longrightarrow>
     first_key (info (ssts ! i)) \<le> first_key (info (ssts ! j))"
  using strictly_ascending_nth [of ssts i j] by (cases "i = j") auto

lemma sort_search_from_spec:
  "(\<forall>h<n. f h = Returned (P h)) \<Longrightarrow> (\<forall>a b. a \<le> b \<and> b < n \<and> P a \<longrightarrow> P b) \<Longrightarrow>
   i \<le> j \<Longrightarrow> j \<le> n \<Longrightarrow> (\<forall>k<i. \<not> P k) \<Longrightarrow> (\<forall>k. j \<le> k \<and> k < n \<longrightarrow> P k) \<Longrightarrow>
         \<exists>r. sort_search_from i j f = Returned r \<and> r \<le> n \<and>
             (\<forall>k<r. \<not> P k) \<and> (\<forall>k. r \<le> k \<and> k < n \<longrightarrow> P k)"
proof (induction i j f rule: sort_search_from.induct)
  case (1 i j f)
  note f = "1.prems"(1) and mono = "1.prems"(2) and ij = "1.prems"(3) and jn = "1.prems"(4)
    and lo = "1.prems"(5) and hi = "1.prems"(6)
  show ?case
  proof (cases "i < j")
    case False
    then have "sort_search_from i j f = Returned i" by (subst sort_search_from.simps) simp
    moreover have "i = j" using False ij by simp
    ultimately show ?thesis using jn lo hi by auto
  next
    case True
    define h where "h = (i + j) div 2"
    have h: "i \<le> h" "h < j" "h < n" using True jn by (auto simp: h_def)
    have fh: "f h = Returned (P h)" using f h by simp
    show ?thesis
    proof (cases "P h")
      case False
      have eq: "sort_search_from i j f = sort_search_from (h + 1) j f"
        using True fh False by (subst sort_search_from.simps) (simp add: h_def Let_def)
      have below: "\<forall>k<h + 1. \<not> P k"
      proof (intro allI impI)
        fix k assume "k < h + 1"
        then have "k \<le> h" by simp
        then show "\<not> P k" using mono h False by blast
      qed
      have "\<exists>r. sort_search_from (h + 1) j f = Returned r \<and> r \<le> n \<and>
             (\<forall>k<r. \<not> P k) \<and> (\<forall>k. r \<le> k \<and> k < n \<longrightarrow> P k)"
      proof (rule "1.IH"(1) [OF True h_def fh _ f mono _ jn below hi])
        show "\<not> P h" by (rule False)
        show "h + 1 \<le> j" using h by simp
      qed
      then show ?thesis unfolding eq .
    next
      case Ph: True
      have eq: "sort_search_from i j f = sort_search_from i h f"
        using True fh Ph by (subst sort_search_from.simps) (simp add: h_def Let_def)
      have above: "\<forall>k. h \<le> k \<and> k < n \<longrightarrow> P k"
        using mono Ph by blast
      have "\<exists>r. sort_search_from i h f = Returned r \<and> r \<le> n \<and>
             (\<forall>k<r. \<not> P k) \<and> (\<forall>k. r \<le> k \<and> k < n \<longrightarrow> P k)"
      proof (rule "1.IH"(2) [OF True h_def fh _ f mono h(1) _ lo above])
        show "\<not> \<not> P h" using Ph by simp
        show "h \<le> n" using h by simp
      qed
      then show ?thesis unfolding eq .
    qed
  qed
qed

lemma first_key_nonempty_nth:
  "\<forall>h \<in> set ssts. first_key (info h) \<noteq> [] \<Longrightarrow> i < length ssts \<Longrightarrow>
     first_key_after ssts target i = Returned (target < first_key (info (ssts ! i)))"
  by (simp add: first_key_after_def assert_true_def bytes_compare_pos)

text \<open>
  Both searches compute a boundary \<open>r\<close>: no SST before \<open>r\<close> has a first key above the
  target, every SST from \<open>r\<close> on has one. The answer \<open>r - 1\<close>, or none for \<open>r = 0\<close>, is
  then the last SST whose first key is at most the target.
\<close>

lemma boundary_locates:
  assumes ans: "ans = (if r > 0 then Some (r - 1) else None)"
    and r_le: "r \<le> length ssts"
    and below: "\<And>j. j < r \<Longrightarrow> \<not> target < first_key (info (ssts ! j))"
    and above: "\<And>j. r \<le> j \<Longrightarrow> j < length ssts \<Longrightarrow> target < first_key (info (ssts ! j))"
  shows "(ans = None \<longleftrightarrow>
            ssts = [] \<or> target < first_key (info (ssts ! 0))) \<and>
         (\<forall>i. ans = Some i \<longleftrightarrow>
            i < length ssts \<and> first_key (info (ssts ! i)) \<le> target \<and>
            (\<forall>j < length ssts. first_key (info (ssts ! j)) \<le> target \<longrightarrow> j \<le> i))"
proof (intro conjI allI)
  show "ans = None \<longleftrightarrow>
            ssts = [] \<or> target < first_key (info (ssts ! 0))"
  proof (cases "ssts = []")
    case True
    then show ?thesis using r_le ans by simp
  next
    case False
    then have "r = 0 \<longleftrightarrow> target < first_key (info (ssts ! 0))"
      using above [of 0] below [of 0] by auto
    then show ?thesis using False ans by auto
  qed
next
  fix i
  show "ans = Some i \<longleftrightarrow>
            i < length ssts \<and> first_key (info (ssts ! i)) \<le> target \<and>
            (\<forall>j < length ssts. first_key (info (ssts ! j)) \<le> target \<longrightarrow> j \<le> i)"
  proof
    assume "ans = Some i"
    then have r: "r > 0" "i = r - 1" using ans by (auto split: if_splits)
    then have "i < r" by simp
    have "j \<le> i" if "j < length ssts" "first_key (info (ssts ! j)) \<le> target" for j
    proof (rule ccontr)
      assume "\<not> j \<le> i"
      then have "r \<le> j" using r by simp
      then show False using above that by (meson leD)
    qed
    then show "i < length ssts \<and> first_key (info (ssts ! i)) \<le> target \<and>
            (\<forall>j < length ssts. first_key (info (ssts ! j)) \<le> target \<longrightarrow> j \<le> i)"
      using \<open>i < r\<close> r_le below [of i] by auto
  next
    assume R: "i < length ssts \<and> first_key (info (ssts ! i)) \<le> target \<and>
            (\<forall>j < length ssts. first_key (info (ssts ! j)) \<le> target \<longrightarrow> j \<le> i)"
    have "i < r" using above [of i] R by (meson leD not_le_imp_less)
    moreover have "r - 1 \<le> i"
    proof (cases "r = 0")
      case True then show ?thesis by simp
    next
      case False
      then have "r - 1 < r" by simp
      then have "first_key (info (ssts ! (r - 1))) \<le> target" using below by (meson not_le_imp_less)
      moreover have "r - 1 < length ssts" using r_le False by simp
      ultimately show ?thesis using R by blast
    qed
    ultimately have "r > 0 \<and> r - 1 = i" by simp
    then show "ans = Some i" using ans by simp
  qed
qed

text \<open>The boundary of the linear scan, on a run with ascending first keys.\<close>

lemma scan_from_boundary:
  assumes "strictly_ascending ssts"
  shows "scan_from ssts target 0 \<le> length ssts \<and>
         (\<forall>j < scan_from ssts target 0. \<not> target < first_key (info (ssts ! j))) \<and>
         (\<forall>j. scan_from ssts target 0 \<le> j \<and> j < length ssts \<longrightarrow>
            target < first_key (info (ssts ! j)))"
proof (cases "ssts = []")
  case True
  then show ?thesis by (simp add: scan_from.simps)
next
  case False
  define r where "r = scan_from ssts target 0"
  have pos: "0 < length ssts" using False by simp
  have r_le: "r \<le> length ssts"
    and below: "\<And>j. j < r \<Longrightarrow> \<not> target < first_key (info (ssts ! j))"
    and at: "r < length ssts \<Longrightarrow> target < first_key (info (ssts ! r))"
    using scan_from_spec [OF pos, of target] unfolding r_def by auto
  have "target < first_key (info (ssts ! j))" if "r \<le> j" "j < length ssts" for j
  proof -
    have "r < length ssts" using that by simp
    then have "target < first_key (info (ssts ! r))" by (rule at)
    also have "\<dots> \<le> first_key (info (ssts ! j))"
      using strictly_ascending_nth_le [OF assms that] .
    finally show ?thesis .
  qed
  then show ?thesis using r_le below unfolding r_def by blast
qed

text \<open>
  The boundary of \<^verbatim>\<open>sort.Search\<close> with the closure of the compaction package, on a
  run with ascending first keys none of which is empty: the search returns.
\<close>

lemma sort_search_boundary:
  assumes asc: "strictly_ascending ssts"
    and nonempty: "\<forall>h \<in> set ssts. first_key (info h) \<noteq> []"
  shows "\<exists>r. sort_search (length ssts) (first_key_after ssts target) = Returned r \<and>
             r \<le> length ssts \<and>
             (\<forall>j < r. \<not> target < first_key (info (ssts ! j))) \<and>
             (\<forall>j. r \<le> j \<and> j < length ssts \<longrightarrow> target < first_key (info (ssts ! j)))"
proof -
  define n where "n = length ssts"
  define P where "P = (\<lambda>i. target < first_key (info (ssts ! i)))"
  have f: "\<forall>h<n. first_key_after ssts target h = Returned (P h)"
    using first_key_nonempty_nth [OF nonempty] by (simp add: n_def P_def)
  have mono: "\<forall>a b. a \<le> b \<and> b < n \<and> P a \<longrightarrow> P b"
    unfolding P_def n_def using strictly_ascending_nth_le [OF asc] by (meson less_le_trans)
  have "\<exists>r. sort_search_from 0 n (first_key_after ssts target) = Returned r \<and> r \<le> n \<and>
             (\<forall>k<r. \<not> P k) \<and> (\<forall>k. r \<le> k \<and> k < n \<longrightarrow> P k)"
    by (rule sort_search_from_spec [OF f mono]) auto
  then show ?thesis unfolding sort_search_def n_def P_def .
qed

text \<open>
  Claim C3, as stated, fails for the \<^verbatim>\<open>sort.Search\<close> variant of package compaction:
  on the ascending run with the first keys \<open>''''\<close>, \<open>''d''\<close>, \<open>''f''\<close> and the key \<open>''a''\<close>
  the first SST is the last one whose first key is at most the key, and the search
  panics on its assertion instead of returning it.
\<close>

theorem compaction_indexOfSSTWithKey_panics_on_empty_first_key:
  "strictly_ascending (map handle_with_first_key ['''', ''d'', ''f'']) \<and>
   first_key (info (map handle_with_first_key ['''', ''d'', ''f''] ! 0)) \<le> ''a'' \<and>
   ''a'' < first_key (info (map handle_with_first_key ['''', ''d'', ''f''] ! 1)) \<and>
   compaction_indexOfSSTWithKey (map handle_with_first_key ['''', ''d'', ''f'']) ''a''
     = Panicked ''sst must have first key''"
  by (simp add: strictly_ascending_def first_keys_def handle_with_first_key_def
      compaction_indexOfSSTWithKey_def sort_search_def sort_search_from.simps
      first_key_after_def assert_true_def bytes_compare_def)

text \<open>
  Claim C3, amended. For a run whose first keys are strictly ascending and any key, the
  linear scan \<^const>\<open>indexOfSSTWithKey\<close> of package slatedb returns \<open>None\<close> exactly when the
  run is empty or the key is smaller than the first key of the first SST, and returns
  \<open>Some i\<close> exactly for the last SST \<open>i\<close> whose first key is at most the key; that SST is
  unique. When moreover no first key is empty (the assertion of package compaction), the
  \<^verbatim>\<open>sort.Search\<close> variant \<^const>\<open>compaction_indexOfSSTWithKey\<close> returns, and returns
  \<open>None\<close> and \<open>Some i\<close> in exactly the same cases.
\<close>

theorem indexOfSSTWithKey_locates:
  assumes "strictly_ascending ssts"
  shows "(indexOfSSTWithKey ssts target = None \<longleftrightarrow>
            ssts = [] \<or> target < first_key (info (ssts ! 0))) \<and>
         (\<forall>i. indexOfSSTWithKey ssts target = Some i \<longleftrightarrow>
            i < length ssts \<and> first_key (info (ssts ! i)) \<le> target \<and>
            (\<forall>j < length ssts. first_key (info (ssts ! j)) \<le> target \<longrightarrow> j \<le> i)) \<and>
         ((\<forall>h \<in> set ssts. first_key (info h) \<noteq> []) \<longrightarrow>
            (\<exists>found. compaction_indexOfSSTWithKey ssts target = Returned found) \<and>
            (compaction_indexOfSSTWithKey ssts target = Returned None \<longleftrightarrow>
               ssts = [] \<or> target < first_key (info (ssts ! 0))) \<and>
            (\<forall>i. compaction_indexOfSSTWithKey ssts target = Returned (Some i) \<longleftrightarrow>
               i < length ssts \<and> first_key (info (ssts ! i)) \<le> target \<and>
               (\<forall>j < length ssts. first_key (info (ssts ! j)) \<le> target \<longrightarrow> j \<le> i)))"
proof -
  define r where "r = scan_from ssts target 0"
  have lin: "indexOfSSTWithKey ssts target = (if r > 0 then Some (r - 1) else None)"
    by (simp add: indexOfSSTWithKey_def r_def Let_def)
  have "r \<le> length ssts"
    and "\<And>j. j < r \<Longrightarrow> \<not> target < first_key (info (ssts ! j))"
    and "\<And>j. r \<le> j \<Longrightarrow> j < length ssts \<Longrightarrow> target < first_key (info (ssts ! j))"
    using scan_from_boundary [OF assms, of target] unfolding r_def by auto
  note linear = boundary_locates [OF lin this]
  have search: "(\<exists>found. compaction_indexOfSSTWithKey ssts target = Returned found) \<and>
            (compaction_indexOfSSTWithKey ssts target = Returned None \<longleftrightarrow>
               ssts = [] \<or> target < first_key (info (ssts ! 0))) \<and>
            (\<forall>i. compaction_indexOfSSTWithKey ssts target = Returned (Some i) \<longleftrightarrow>
               i < length ssts \<and> first_key (info (ssts ! i)) \<le> target \<and>
               (\<forall>j < length ssts. first_key (info (ssts ! j)) \<le> target \<longrightarrow> j \<le> i))"
    if nonempty: "\<forall>h \<in> set ssts. first_key (info h) \<noteq> []"
  proof -
    from sort_search_boundary [OF assms nonempty, of target]
    obtain s where s: "sort_search (length ssts) (first_key_after ssts target) = Returned s"
      and "s \<le> length ssts"
      and "\<And>j. j < s \<Longrightarrow> \<not> target < first_key (info (ssts ! j))"
      and "\<And>j. s \<le> j \<Longrightarrow> j < length ssts \<Longrightarrow> target < first_key (info (ssts ! j))"
      by blast
    define found where "found = (if s > 0 then Some (s - 1) else None)"
    note located = boundary_locates [OF found_def \<open>s \<le> length ssts\<close>
        \<open>\<And>j. j < s \<Longrightarrow> \<not> target < first_key (info (ssts ! j))\<close>
        \<open>\<And>j. s \<le> j \<Longrightarrow> j < length ssts \<Longrightarrow> target < first_key (info (ssts ! j))\<close>]
    have res: "compaction_indexOfSSTWithKey ssts target = Returned found"
      by (simp add: compaction_indexOfSSTWithKey_def s found_def)
    have "\<exists>f. compaction_indexOfSSTWithKey ssts target = Returned f"
      using res by (rule exI)
    moreover have "compaction_indexOfSSTWithKey ssts target = Returned None \<longleftrightarrow>
               ssts = [] \<or> target < first_key (info (ssts ! 0))"
      using located [THEN conjunct1] by (simp only: res outcome.inject)
    moreover have "compaction_indexOfSSTWithKey ssts target = Returned (Some i) \<longleftrightarrow>
               i < length ssts \<and> first_key (info (ssts ! i)) \<le> target \<and>
               (\<forall>j < length ssts. first_key (info (ssts ! j)) \<le> target \<longrightarrow> j \<le> i)" for i
      using located [THEN conjunct2, THEN spec, of i] by (simp only: res outcome.inject)
    ultimately show ?thesis by (intro conjI allI)
  qed
  show ?thesis
  proof (intro conjI impI)
    show "indexOfSSTWithKey ssts target = None \<longleftrightarrow>
            ssts = [] \<or> target < first_key (info (ssts ! 0))"
      using linear by (rule conjunct1)
    show "\<forall>i. indexOfSSTWithKey ssts target = Some i \<longleftrightarrow>
            i < length ssts \<and> first_key (info (ssts ! i)) \<le> target \<and>
            (\<forall>j < length ssts. first_key (info (ssts ! j)) \<le> target \<longrightarrow> j \<le> i)"
      using linear by (rule conjunct2)
  next
    assume ne: "\<forall>h \<in> set ssts. first_key (info h) \<noteq> []"
    show "\<exists>found. compaction_indexOfSSTWithKey ssts target = Returned found"
      using search [OF ne] by (rule conjunct1)
    show "compaction_indexOfSSTWithKey ssts target = Returned None \<longleftrightarrow>
               ssts = [] \<or> target < first_key (info (ssts ! 0))"
      using search [OF ne] by (elim conjE)
    show "\<forall>i. compaction_indexOfSSTWithKey ssts target = Returned (Some i) \<longleftrightarrow>
               i < length ssts \<and> first_key (info (ssts ! i)) \<le> target \<and>
               (\<forall>j < length ssts. first_key (info (ssts ! j)) \<le> target \<longrightarrow> j \<le> i)"
      using search [OF ne] by (elim conjE)
  qed
qed

theorem indexOfSSTWithKey_locates_witness:
  "strictly_ascending (map handle_with_first_key [''b'', ''d'', ''f'']) \<and>
   list_all (\<lambda>h. first_key (info h) \<noteq> []) (map handle_with_first_key [''b'', ''d'', ''f'']) \<and>
   indexOfSSTWithKey (map handle_with_first_key [''b'', ''d'', ''f'']) ''a'' = None \<and>
   indexOfSSTWithKey (map handle_with_first_key [''b'', ''d'', ''f'']) ''e'' \<noteq> None \<and>
   compaction_indexOfSSTWithKey (map handle_with_first_key [''b'', ''d'', ''f'']) ''a''
     = Returned None \<and>
   compaction_indexOfSSTWithKey (map handle_with_first_key [''b'', ''d'', ''f'']) ''e''
     = Returned (Some 1)"
proof -
  let ?run = "map handle_with_first_key [''b'', ''d'', ''f'']"
  have asc: "strictly_ascending ?run"
    by (simp add: strictly_ascending_def first_keys_def handle_with_first_key_def)
  have ne: "\<forall>h \<in> set ?run. first_key (info h) \<noteq> []"
    by (simp add: handle_with_first_key_def)
  have nth: "?run ! 0 = handle_with_first_key ''b''" "?run ! 1 = handle_with_first_key ''d''"
    "?run ! 2 = handle_with_first_key ''f''" "length ?run = 3"
    by simp_all
  have "indexOfSSTWithKey ?run ''a'' = None"
    using indexOfSSTWithKey_locates [OF asc, THEN conjunct1, of "''a''"]
    by (simp add: handle_with_first_key_def)
  moreover have "indexOfSSTWithKey ?run ''e'' \<noteq> None"
    using indexOfSSTWithKey_locates [OF asc, THEN conjunct1, of "''e''"]
    by (simp add: handle_with_first_key_def)
  moreover have "compaction_indexOfSSTWithKey ?run ''a'' = Returned None"
    using indexOfSSTWithKey_locates [OF asc, THEN conjunct2, THEN conjunct2, of "''a''"] ne
    by (simp add: handle_with_first_key_def)
  moreover have "compaction_indexOfSSTWithKey ?run ''e'' = Returned (Some 1)"
  proof -
    have "\<forall>j<3. first_key (info (?run ! j)) \<le> ''e'' \<longrightarrow> j \<le> 1"
      by (auto simp: handle_with_first_key_def less_Suc_eq numeral_3_eq_3)
    then show ?thesis
      using indexOfSSTWithKey_locates [OF asc, THEN conjunct2, THEN conjunct2, of "''e''"] ne
      by (simp add: handle_with_first_key_def)
  qed
  ultimately show ?thesis using asc ne by (simp add: list_all_iff)
qed

text \<open>
  Claim C9, as stated, fails: on a run whose first SST has an empty first key the
  \<^verbatim>\<open>sort.Search\<close> variant panics on its assertion where the linear scan returns.
\<close>

theorem indexOfSSTWithKey_variants_differ:
  "strictly_ascending (map handle_with_first_key ['''', ''d'']) \<and>
   indexOfSSTWithKey (map handle_with_first_key ['''', ''d'']) ''c'' = Some 0 \<and>
   compaction_indexOfSSTWithKey (map handle_with_first_key ['''', ''d'']) ''c''
     = Panicked ''sst must have first key''"
  by (simp add: strictly_ascending_def first_keys_def handle_with_first_key_def
      indexOfSSTWithKey_def scan_from.simps bytes_compare_def
      compaction_indexOfSSTWithKey_def sort_search_def sort_search_from.simps
      first_key_after_def assert_true_def)

text \<open>
  Claim C9, amended. For a run whose first keys are strictly ascending and all non-empty
  (the assertion of the compaction package), the \<^verbatim>\<open>sort.Search\<close> variant returns,
  and returns what the linear scan of package slatedb returns.
\<close>

theorem indexOfSSTWithKey_variants_agree:
  assumes asc: "strictly_ascending ssts"
    and nonempty: "\<forall>h \<in> set ssts. first_key (info h) \<noteq> []"
  shows "compaction_indexOfSSTWithKey ssts target = Returned (indexOfSSTWithKey ssts target)"
proof -
  define n where "n = length ssts"
  define P where "P = (\<lambda>i. target < first_key (info (ssts ! i)))"
  have f: "\<forall>h<n. first_key_after ssts target h = Returned (P h)"
    using first_key_nonempty_nth [OF nonempty] by (simp add: n_def P_def)
  have mono: "\<forall>a b. a \<le> b \<and> b < n \<and> P a \<longrightarrow> P b"
    unfolding P_def n_def using strictly_ascending_nth_le [OF asc] by (meson less_le_trans)
  have "\<exists>r. sort_search_from 0 n (first_key_after ssts target) = Returned r \<and> r \<le> n \<and>
             (\<forall>k<r. \<not> P k) \<and> (\<forall>k. r \<le> k \<and> k < n \<longrightarrow> P k)"
    by (rule sort_search_from_spec [OF f mono]) auto
  then obtain r where r: "sort_search n (first_key_after ssts target) = Returned r" "r \<le> n"
      "\<forall>k<r. \<not> P k" "\<forall>k. r \<le> k \<and> k < n \<longrightarrow> P k"
    unfolding sort_search_def by auto
  have "scan_from ssts target 0 = r"
  proof (cases "ssts = []")
    case True
    then show ?thesis using r(2) by (simp add: n_def scan_from.simps)
  next
    case False
    define s where "s = scan_from ssts target 0"
    have pos: "0 < length ssts" using False by simp
    have s_le: "s \<le> n"
      and below: "\<And>j. j < s \<Longrightarrow> \<not> P j"
      and at: "s < n \<Longrightarrow> P s"
      using scan_from_spec [OF pos, of target] unfolding s_def n_def P_def by auto
    have "\<not> s < r" using r(3) at r(2) by (meson less_le_trans)
    moreover have "\<not> r < s" using below r(4) s_le by (meson less_le_trans order_refl)
    ultimately show ?thesis unfolding s_def by simp
  qed
  then show ?thesis
    using r(1) by (simp add: compaction_indexOfSSTWithKey_def indexOfSSTWithKey_def n_def)
qed


theorem indexOfSSTWithKey_variants_agree_witness:
  "strictly_ascending (map handle_with_first_key [''b'', ''d'', ''f'']) \<and>
   list_all (\<lambda>h. first_key (info h) \<noteq> []) (map handle_with_first_key [''b'', ''d'', ''f'']) \<and>
   compaction_indexOfSSTWithKey (map handle_with_first_key [''b'', ''d'', ''f'']) ''e''
     = Returned (Some 1)"
proof -
  have asc: "strictly_ascending (map handle_with_first_key [''b'', ''d'', ''f''])"
    by (simp add: strictly_ascending_def first_keys_def handle_with_first_key_def)
  have ne: "\<forall>h \<in> set (map handle_with_first_key [''b'', ''d'', ''f'']). first_key (info h) \<noteq> []"
    by (simp add: handle_with_first_key_def)
  have "indexOfSSTWithKey (map handle_with_first_key [''b'', ''d'', ''f'']) ''e'' = Some 1"
    by (simp add: indexOfSSTWithKey_def scan_from.simps bytes_compare_def handle_with_first_key_def)
  then show ?thesis
    using asc ne indexOfSSTWithKey_variants_agree [OF asc ne, of "''e''"]
    by (simp add: handle_with_first_key_def)
qed

section \<open>Properties of the table store\<close>

subsection \<open>Parsing a WAL id from an object name\<close>

lemma foldl_decimal_ge: "a \<le> foldl (\<lambda>n c. n * 10 + digit_value c) a s"
proof (induction s arbitrary: a)
  case Nil show ?case by simp
next
  case (Cons c cs)
  have "a \<le> a * 10 + digit_value c" by simp
  also have "\<dots> \<le> foldl (\<lambda>n c. n * 10 + digit_value c) (a * 10 + digit_value c) cs"
    by (rule Cons.IH)
  finally show ?case by simp
qed

lemma parse_uint_from_Inr:
  "a \<le> max_uint64 \<Longrightarrow>
   parse_uint_from s a = Inr n \<longleftrightarrow>
     list_all is_digit s \<and> foldl (\<lambda>n c. n * 10 + digit_value c) a s \<le> max_uint64 \<and>
     n = foldl (\<lambda>n c. n * 10 + digit_value c) a s"
proof (induction s arbitrary: a)
  case Nil then show ?case by auto
next
  case (Cons c cs)
  let ?a' = "a * 10 + digit_value c"
  have ge: "?a' \<le> foldl (\<lambda>n c. n * 10 + digit_value c) ?a' cs" by (rule foldl_decimal_ge)
  show ?case
  proof (cases "is_digit c")
    case False then show ?thesis by simp
  next
    case True
    show ?thesis
    proof (cases "?a' > max_uint64")
      case True
      then show ?thesis using ge \<open>is_digit c\<close> by auto
    next
      case False
      then have small: "\<not> a \<ge> max_uint64 div 10 + 1" by (simp add: max_uint64_def)
      have "?a' \<le> max_uint64" using False by simp
      from Cons.IH [OF this] show ?thesis using True False small by simp
    qed
  qed
qed

lemma parse_uint_Inr: "parse_uint s = Inr n \<longleftrightarrow> is_decimal_u64 s \<and> n = decimal_value s"
  using parse_uint_from_Inr [of 0 s n]
  by (auto simp: parse_uint_def is_decimal_u64_def decimal_value_def)

lemma ext_scan_nonempty:
  "ext_scan r suf = e \<Longrightarrow> e \<noteq> [] \<Longrightarrow> \<exists>pre q. r = pre @ CHR ''.'' # q \<and> e = CHR ''.'' # rev pre @ suf"
proof (induction r arbitrary: suf)
  case Nil then show ?case by simp
next
  case (Cons c r)
  show ?case
  proof (cases "c = CHR ''/''")
    case True then show ?thesis using Cons.prems by simp
  next
    case False
    show ?thesis
    proof (cases "c = CHR ''.''")
      case True
      then have "e = CHR ''.'' # rev [] @ suf" using Cons.prems by simp
      then show ?thesis using True by blast
    next
      case notdot: False
      then have "ext_scan r (c # suf) = e" using False Cons.prems by simp
      from Cons.IH [OF this Cons.prems(2)] obtain pre q
        where "r = pre @ CHR ''.'' # q" "e = CHR ''.'' # rev pre @ c # suf" by blast
      then have "c # r = (c # pre) @ CHR ''.'' # q \<and> e = CHR ''.'' # rev (c # pre) @ suf" by simp
      then show ?thesis by blast
    qed
  qed
qed

lemma path_ext_sst_iff: "path_ext p = ''.sst'' \<longleftrightarrow> (\<exists>q. p = q @ ''.sst'')"
proof
  assume "path_ext p = ''.sst''"
  then have "ext_scan (rev p) [] = ''.sst''" by (simp add: path_ext_def)
  from ext_scan_nonempty [OF this] obtain pre q
    where r: "rev p = pre @ CHR ''.'' # q" and e: "''.sst'' = CHR ''.'' # rev pre @ []" by auto
  from e have "rev pre = ''sst''" by simp
  then have "pre = rev ''sst''" by (metis rev_rev_ident)
  then have "rev p = ''tss.'' @ q" using r by simp
  then have "p = rev (''tss.'' @ q)" by (metis rev_rev_ident)
  then have "p = rev q @ ''.sst''" by simp
  then show "\<exists>q. p = q @ ''.sst''" by blast
next
  assume "\<exists>q. p = q @ ''.sst''"
  then show "path_ext p = ''.sst''" by (auto simp: path_ext_def)
qed

lemma path_base_sst:
  "path_base (q @ ''.sst'') = rev (takeWhile (\<lambda>c. c \<noteq> CHR ''/'') (rev q)) @ ''.sst''"
  by (simp add: path_base_def Let_def)

lemma sst_file_stem_sst:
  "sst_file_stem (q @ ''.sst'') = rev (takeWhile (\<lambda>c. c \<noteq> CHR ''/'') (rev q))"
  by (simp add: sst_file_stem_def path_base_sst)

lemma strings_index_bound:
  "strings_index s sub = Some i \<Longrightarrow> i + length sub \<le> length s"
proof (induction s arbitrary: i)
  case Nil then show ?case by (simp split: if_splits)
next
  case (Cons c cs)
  show ?case
  proof (cases "take (length sub) (c # cs) = sub")
    case True
    then have "i = 0" using Cons.prems by simp
    moreover have "length (take (length sub) (c # cs)) = length sub" using True by simp
    then have "length sub \<le> length (c # cs)" by simp
    ultimately show ?thesis by simp
  next
    case False
    then obtain j where "strings_index cs sub = Some j" "i = Suc j" using Cons.prems by auto
    then show ?thesis using Cons.IH by force
  qed
qed

lemma is_digit_not_dot: "is_digit c \<Longrightarrow> c \<noteq> CHR ''.''"
  by (auto simp: is_digit_def)

lemma not_digit_t: "\<not> is_digit CHR ''t''"
  by (simp add: is_digit_def)

lemma not_digit_dot: "\<not> is_digit CHR ''.''"
  by (simp add: is_digit_def)

lemma strings_index_digits:
  "list_all is_digit stem \<Longrightarrow> strings_index (stem @ ''.sst'') ''.sst'' = Some (length stem)"
proof (induction stem)
  case Nil show ?case by simp
next
  case (Cons c cs)
  then have "c \<noteq> CHR ''.''" by (simp add: is_digit_not_dot)
  then show ?case using Cons by simp
qed

lemma replace_sst_digits:
  "list_all is_digit (strings_replace_first (stem @ ''.sst'') ''.sst'' []) \<longleftrightarrow> list_all is_digit stem"
  and replace_sst_eq:
  "list_all is_digit stem \<Longrightarrow> strings_replace_first (stem @ ''.sst'') ''.sst'' [] = stem"
proof -
  let ?s = "stem @ ''.sst''"
  let ?r = "strings_replace_first ?s ''.sst'' []"
  show eq: "?r = stem" if "list_all is_digit stem"
    using strings_index_digits [OF that] by (simp add: strings_replace_first_def)
  have "list_all is_digit stem" if d: "list_all is_digit ?r"
  proof (cases "strings_index ?s ''.sst''")
    case None
    then have "?r = ?s" by (simp add: strings_replace_first_def)
    then show ?thesis using d by (simp add: not_digit_dot)
  next
    case (Some i)
    have len4: "length ''.sst'' = 4" by simp
    have r: "?r = take i ?s @ drop (i + 4) ?s"
      unfolding strings_replace_first_def Some len4 by simp
    have le: "i \<le> length stem" using strings_index_bound [OF Some] by simp
    show ?thesis
    proof (cases "i = length stem")
      case True
      then have "?r = stem" using r by simp
      then show ?thesis using d by simp
    next
      case False
      then have lt: "i + 4 < length ?s" using le by simp
      then have "last (drop (i + 4) ?s) = last ?s" by (rule last_drop)
      moreover have "last ?s = CHR ''t''" by simp
      moreover have "length (drop (i + 4) ?s) > 0" using lt by (simp only: length_drop zero_less_diff)
      then have "drop (i + 4) ?s \<noteq> []" by fastforce
      ultimately have "CHR ''t'' \<in> set (drop (i + 4) ?s)" by (metis last_in_set)
      then have "CHR ''t'' \<in> set ?r" using r by simp
      then have "is_digit CHR ''t''" using d by (simp add: list_all_iff)
      then show ?thesis by (simp add: not_digit_t)
    qed
  qed
  then show "list_all is_digit ?r \<longleftrightarrow> list_all is_digit stem" using eq by auto
qed

lemma parseID_spec:
  assumes "path_ext p = ''.sst''"
  shows "parseID p ''.sst'' =
           Returned (case wal_id_of_path p of Some n \<Rightarrow> Inr n | None \<Rightarrow> Inl ErrInvalidDBState)"
proof -
  obtain q where p: "p = q @ ''.sst''" using assms path_ext_sst_iff by blast
  define stem where "stem = rev (takeWhile (\<lambda>c. c \<noteq> CHR ''/'') (rev q))"
  have base: "path_base p = stem @ ''.sst''" and st: "sst_file_stem p = stem"
    by (simp_all add: p stem_def path_base_sst sst_file_stem_sst)
  define r where "r = strings_replace_first (stem @ ''.sst'') ''.sst'' []"
  have dec: "is_decimal_u64 r \<longleftrightarrow> is_decimal_u64 stem"
  proof (cases "list_all is_digit stem")
    case True then show ?thesis by (simp add: r_def replace_sst_eq)
  next
    case False
    then have "\<not> list_all is_digit r" by (simp add: r_def replace_sst_digits)
    then show ?thesis using False by (simp add: is_decimal_u64_def)
  qed
  have val: "is_decimal_u64 stem \<Longrightarrow> r = stem"
    by (simp add: r_def replace_sst_eq is_decimal_u64_def)
  show ?thesis
  proof (cases "parse_uint r")
    case (Inl e)
    then have "\<not> is_decimal_u64 r" using parse_uint_Inr [of r] by auto
    then have "wal_id_of_path p = None" using dec st by (simp add: wal_id_of_path_def)
    then show ?thesis using Inl assms base
      by (simp add: parseID_def assert_true_def r_def Let_def)
  next
    case (Inr n)
    then have "is_decimal_u64 r" "n = decimal_value r" using parse_uint_Inr [of r n] by auto
    then have "wal_id_of_path p = Some n" using dec st val by (simp add: wal_id_of_path_def)
    then show ?thesis using Inr assms base
      by (simp add: parseID_def assert_true_def r_def Let_def)
  qed
qed

subsection \<open>Listing the WAL SSTs\<close>

lemma collect_wal_ids_spec:
  "sst_names_have_sst_ext names \<Longrightarrow>
     collect_wal_ids watermark names walList = Returned (walList @ listed_wal_ids watermark names)"
proof (induction names arbitrary: walList)
  case Nil
  show ?case by (simp add: listed_wal_ids_def List.map_filter_simps)
next
  case (Cons p names)
  have rest: "sst_names_have_sst_ext names"
    and here: "strings_contains p ''.sst'' \<longrightarrow> path_ext p = ''.sst''"
    using Cons.prems by (simp_all add: sst_names_have_sst_ext_def)
  note IH = Cons.IH [OF rest]
  show ?case
  proof (cases "strings_contains p ''.sst''")
    case False
    then show ?thesis using IH
      by (simp add: listed_wal_ids_def List.map_filter_simps)
  next
    case True
    then have "parseID p ''.sst'' =
        Returned (case wal_id_of_path p of Some n \<Rightarrow> Inr n | None \<Rightarrow> Inl ErrInvalidDBState)"
      using here parseID_spec by blast
    then show ?thesis using True IH
      by (cases "wal_id_of_path p")
         (simp_all add: listed_wal_ids_def List.map_filter_simps)
  qed
qed

lemma set_listed_wal_ids:
  "set (listed_wal_ids watermark names) =
     {n. \<exists>p \<in> set names. strings_contains p ''.sst'' \<and> wal_id_of_path p = Some n \<and> watermark < n}"
  by (induction names)
     (auto simp: listed_wal_ids_def List.map_filter_simps split: option.splits if_splits)

lemma getWalSSTList_spec:
  assumes "sst_names_have_sst_ext (wal_listing ts)"
  shows "getWalSSTList ts watermark =
           (case iter_error (bucket ts) (path_join [rootPath ts, walPath ts]) of
              Some err \<Rightarrow> Returned (Inl ErrObjectStore)
            | None \<Rightarrow> Returned (Inr (sort (listed_wal_ids watermark (wal_listing ts)))))"
  using collect_wal_ids_spec [OF assms, of watermark "[]"]
  by (simp add: getWalSSTList_def wal_listing_def Let_def split: option.splits)

text \<open>
  Claim C7, as stated, fails: it speaks of every listing, and a listing with a name that
  contains \<^verbatim>\<open>".sst"\<close> without having it as its extension makes
  \<^const>\<open>getWalSSTList\<close> panic on the assertion of \<^const>\<open>parseID\<close>; it returns
  neither a list nor an error.
\<close>

theorem getWalSSTList_panics_on_foreign_name:
  "getWalSSTList (store_listing [''db/wal/3.sst'', ''db/wal/1.sst.tmp''] None) 1
     = Panicked ''invalid wal file''"
  by (simp add: getWalSSTList_def store_listing_def strings_contains_def parseID_def
      assert_true_def path_ext_def path_base_def strings_replace_first_def parse_uint_def
      is_digit_def digit_value_def max_uint64_def)

text \<open>
  Claim C7, amended. For every watermark and every listing in which each name that
  contains \<^verbatim>\<open>".sst"\<close> has \<^verbatim>\<open>".sst"\<close> as its extension: if the listing fails,
  \<^const>\<open>getWalSSTList\<close> returns the object-store error and no list; otherwise it returns
  a list that is sorted ascending and whose elements are exactly the WAL ids, above the
  watermark, of the listed names \<^verbatim>\<open><decimal-u64>.sst\<close>.
\<close>

theorem getWalSSTList_sorted_ids:
  assumes "sst_names_have_sst_ext (wal_listing ts)"
  shows "(\<forall>err. iter_error (bucket ts) (path_join [rootPath ts, walPath ts]) = Some err \<longrightarrow>
            getWalSSTList ts watermark = Returned (Inl ErrObjectStore)) \<and>
         (iter_error (bucket ts) (path_join [rootPath ts, walPath ts]) = None \<longrightarrow>
            (\<exists>ids. getWalSSTList ts watermark = Returned (Inr ids) \<and> sorted ids \<and>
               set ids = {n. \<exists>p \<in> set (wal_listing ts).
                             strings_contains p ''.sst'' \<and> wal_id_of_path p = Some n \<and>
                             watermark < n}))"
  using getWalSSTList_spec [OF assms, of watermark]
  by (auto simp: set_listed_wal_ids)


theorem getWalSSTList_sorted_ids_witness:
  "sst_names_have_sst_ext
     (wal_listing (store_listing [''db/wal/3.sst'', ''db/wal/x.sst'', ''db/wal/10.sst'',
                                  ''db/wal/1.sst'', ''db/wal/7.txt''] None)) \<and>
   getWalSSTList (store_listing [''db/wal/3.sst'', ''db/wal/x.sst'', ''db/wal/10.sst'',
                                 ''db/wal/1.sst'', ''db/wal/7.txt''] None) 1
     = Returned (Inr [3, 10])"
proof -
  let ?ts = "store_listing [''db/wal/3.sst'', ''db/wal/x.sst'', ''db/wal/10.sst'',
                            ''db/wal/1.sst'', ''db/wal/7.txt''] None"
  have pre: "sst_names_have_sst_ext (wal_listing ?ts)"
    by (simp add: sst_names_have_sst_ext_def wal_listing_def store_listing_def
        strings_contains_def path_ext_def)
  have "\<exists>ids. getWalSSTList ?ts 1 = Returned (Inr ids)"
    using getWalSSTList_sorted_ids [OF pre, of 1]
    by (auto simp: store_listing_def)
  moreover have "getWalSSTList ?ts 1 = Returned (Inr [3, 10])"
    by (simp add: getWalSSTList_def store_listing_def strings_contains_def parseID_def
        assert_true_def path_ext_def path_base_def strings_replace_first_def parse_uint_def
        is_digit_def digit_value_def max_uint64_def)
  ultimately show ?thesis using pre by simp
qed

lemma listed_wal_ids_filter:
  "listed_wal_ids watermark
     (filter (\<lambda>p. \<not> (strings_contains p ''.sst'' \<and> \<not> is_decimal_u64 (sst_file_stem p))) names)
   = listed_wal_ids watermark names"
  by (induction names)
     (auto simp: listed_wal_ids_def List.map_filter_simps wal_id_of_path_def)

lemma sst_names_have_sst_ext_filter:
  "sst_names_have_sst_ext names \<Longrightarrow> sst_names_have_sst_ext (filter keep names)"
  by (induction names) (auto simp: sst_names_have_sst_ext_def)

text \<open>
  Claim C10. When every listed name that contains \<^verbatim>\<open>".sst"\<close> has \<^verbatim>\<open>".sst"\<close> as its
  extension, the assertion of \<^const>\<open>parseID\<close> never fails, so \<^const>\<open>getWalSSTList\<close>
  returns; it returns a list unless the listing itself failed; and the names whose base
  name without the extension is not a decimal \<^verbatim>\<open>u64\<close> are skipped: the result is the
  one for the listing without them.
\<close>

theorem getWalSSTList_total_and_skips:
  assumes "sst_names_have_sst_ext (wal_listing ts)"
  shows "(\<exists>r. getWalSSTList ts watermark = Returned r) \<and>
         (iter_error (bucket ts) (path_join [rootPath ts, walPath ts]) = None \<longrightarrow>
            (\<exists>ids. getWalSSTList ts watermark = Returned (Inr ids))) \<and>
         getWalSSTList ts watermark =
           getWalSSTList
             (restrict_listing
                (\<lambda>p. \<not> (strings_contains p ''.sst'' \<and> \<not> is_decimal_u64 (sst_file_stem p))) ts)
             watermark"
proof -
  let ?keep = "\<lambda>p. \<not> (strings_contains p ''.sst'' \<and> \<not> is_decimal_u64 (sst_file_stem p))"
  let ?ts = "restrict_listing ?keep ts"
  have l: "wal_listing ?ts = filter ?keep (wal_listing ts)"
    by (simp add: wal_listing_def restrict_listing_def)
  have ok: "sst_names_have_sst_ext (wal_listing ?ts)"
    unfolding l using assms by (rule sst_names_have_sst_ext_filter)
  have same: "iter_error (bucket ?ts) (path_join [rootPath ?ts, walPath ?ts])
      = iter_error (bucket ts) (path_join [rootPath ts, walPath ts])"
    by (simp add: restrict_listing_def)
  have "getWalSSTList ?ts watermark = getWalSSTList ts watermark"
    unfolding getWalSSTList_spec [OF ok] getWalSSTList_spec [OF assms] same l
      listed_wal_ids_filter ..
  then show ?thesis
    using getWalSSTList_spec [OF assms, of watermark]
    by (auto split: option.splits)
qed


theorem getWalSSTList_total_and_skips_witness:
  "sst_names_have_sst_ext
     (wal_listing (store_listing [''db/wal/3.sst'', ''db/wal/x.sst'', ''db/wal/7.txt''] None)) \<and>
   getWalSSTList (store_listing [''db/wal/3.sst'', ''db/wal/x.sst'', ''db/wal/7.txt''] None) 1
     = Returned (Inr [3]) \<and>
   getWalSSTList (store_listing [''db/wal/3.sst'', ''db/wal/7.txt''] None) 1
     = Returned (Inr [3])"
proof -
  let ?ts = "store_listing [''db/wal/3.sst'', ''db/wal/x.sst'', ''db/wal/7.txt''] None"
  have pre: "sst_names_have_sst_ext (wal_listing ?ts)"
    by (simp add: sst_names_have_sst_ext_def wal_listing_def store_listing_def
        strings_contains_def path_ext_def)
  have "\<exists>r. getWalSSTList ?ts 1 = Returned r"
    using getWalSSTList_total_and_skips [OF pre, of 1] by blast
  moreover have "getWalSSTList ?ts 1 = Returned (Inr [3])"
    by (simp add: getWalSSTList_def store_listing_def strings_contains_def parseID_def
        assert_true_def path_ext_def path_base_def strings_replace_first_def parse_uint_def
        is_digit_def digit_value_def max_uint64_def)
  moreover have "getWalSSTList (store_listing [''db/wal/3.sst'', ''db/wal/7.txt''] None) 1
      = Returned (Inr [3])"
    by (simp add: getWalSSTList_def store_listing_def strings_contains_def parseID_def
        assert_true_def path_ext_def path_base_def strings_replace_first_def parse_uint_def
        is_digit_def digit_value_def max_uint64_def)
  ultimately show ?thesis using pre by simp
qed

subsection \<open>Writing an SST\<close>

lemma foldl_append_concat: "foldl (\<lambda>data block. data @ block) acc bs = acc @ concat bs"
  by (induction bs arbitrary: acc) simp_all

text \<open>
  Claim C6. \<^const>\<open>WriteSST\<close> uploads the concatenation of the blocks as one object under
  the path of the id. When the upload succeeds the object store holds that object (and
  its other objects are as before), the filter cache maps the id to the table's bloom
  filter, and the handle returned carries the id and the table's info. When the upload
  fails the result is \<^const>\<open>ErrObjectStore\<close> and the filter cache (and the object store)
  are unchanged.
\<close>

theorem WriteSST_uploads_and_caches:
  "(upload_error (bucket ts) (sstPath ts sid) = None \<longrightarrow>
      fst (WriteSST ts sid encodedSST) = Inr \<lparr>handle_id = sid, info = table_info encodedSST\<rparr> \<and>
      objects (bucket (snd (WriteSST ts sid encodedSST))) (sstPath ts sid)
        = Some (concat (blocks encodedSST)) \<and>
      (\<forall>name. name \<noteq> sstPath ts sid \<longrightarrow>
         objects (bucket (snd (WriteSST ts sid encodedSST))) name = objects (bucket ts) name) \<and>
      filterCache (snd (WriteSST ts sid encodedSST)) sid = Some (bloom encodedSST)) \<and>
   (upload_error (bucket ts) (sstPath ts sid) \<noteq> None \<longrightarrow>
      fst (WriteSST ts sid encodedSST) = Inl ErrObjectStore \<and>
      filterCache (snd (WriteSST ts sid encodedSST)) = filterCache ts \<and>
      objects (bucket (snd (WriteSST ts sid encodedSST))) = objects (bucket ts))"
proof (cases "upload_error (bucket ts) (sstPath ts sid)")
  case None
  then have up: "bucket_upload (bucket ts) (sstPath ts sid) (concat (blocks encodedSST))
      = (None, (bucket ts)\<lparr>objects := (objects (bucket ts))(sstPath ts sid \<mapsto> concat (blocks encodedSST))\<rparr>)"
    by (simp add: bucket_upload_def)
  have "WriteSST ts sid encodedSST =
      (Inr (NewHandle sid (table_info encodedSST)),
       cacheFilter (ts\<lparr>bucket := (bucket ts)\<lparr>objects :=
            (objects (bucket ts))(sstPath ts sid \<mapsto> concat (blocks encodedSST))\<rparr>\<rparr>)
         sid (bloom encodedSST))"
    using up by (simp add: WriteSST_def foldl_append_concat Let_def)
  then show ?thesis using None by (simp add: cacheFilter_def NewHandle_def)
next
  case (Some e)
  then have up: "bucket_upload (bucket ts) (sstPath ts sid) (concat (blocks encodedSST))
      = (Some e, bucket ts)"
    by (simp add: bucket_upload_def)
  have "WriteSST ts sid encodedSST = (Inl ErrObjectStore, ts\<lparr>bucket := bucket ts\<rparr>)"
    using up by (simp add: WriteSST_def foldl_append_concat Let_def)
  then show ?thesis using Some by simp
qed

theorem WriteSST_uploads_and_caches_witness:
  "upload_error (bucket (store_listing [] None))
     (sstPath (store_listing [] None) \<lparr>id_type = WAL, id_value = ''7''\<rparr>) = None \<and>
   fst (WriteSST (store_listing [] None) \<lparr>id_type = WAL, id_value = ''7''\<rparr>
          \<lparr>blocks = [''ab'', ''cd''], bloom = Some (), table_info = \<lparr>first_key = ''a''\<rparr>\<rparr>)
     = Inr \<lparr>handle_id = \<lparr>id_type = WAL, id_value = ''7''\<rparr>, info = \<lparr>first_key = ''a''\<rparr>\<rparr> \<and>
   objects (bucket (snd (WriteSST (store_listing [] None) \<lparr>id_type = WAL, id_value = ''7''\<rparr>
          \<lparr>blocks = [''ab'', ''cd''], bloom = Some (), table_info = \<lparr>first_key = ''a''\<rparr>\<rparr>)))
      ''db/wal/7.sst'' = Some ''abcd'' \<and>
   fst (WriteSST store_failing_uploads \<lparr>id_type = WAL, id_value = ''7''\<rparr>
          \<lparr>blocks = [''ab'', ''cd''], bloom = Some (), table_info = \<lparr>first_key = ''a''\<rparr>\<rparr>)
     = Inl ErrObjectStore \<and>
   filterCache (snd (WriteSST store_failing_uploads \<lparr>id_type = WAL, id_value = ''7''\<rparr>
          \<lparr>blocks = [''ab'', ''cd''], bloom = Some (), table_info = \<lparr>first_key = ''a''\<rparr>\<rparr>))
      \<lparr>id_type = WAL, id_value = ''7''\<rparr> = None"
proof -
  let ?ts = "store_listing [] None"
  let ?id = "\<lparr>id_type = WAL, id_value = ''7''\<rparr>"
  let ?sst = "\<lparr>blocks = [''ab'', ''cd''], bloom = Some (), table_info = \<lparr>first_key = ''a''\<rparr>\<rparr>"
  have p: "sstPath ?ts ?id = ''db/wal/7.sst''"
    by (simp add: sstPath_def store_listing_def path_join_def path_clean_def clean_step_def)
  have ok: "upload_error (bucket ?ts) (sstPath ?ts ?id) = None"
    by (simp add: store_listing_def)
  have bad: "upload_error (bucket store_failing_uploads) (sstPath store_failing_uploads ?id) \<noteq> None"
    by (simp add: store_failing_uploads_def)
  have c: "filterCache store_failing_uploads ?id = None"
    by (simp add: store_failing_uploads_def)
  show ?thesis
    using ok p bad c WriteSST_uploads_and_caches [of ?ts ?id ?sst] WriteSST_uploads_and_caches [of store_failing_uploads ?id ?sst]
    by simp
qed

section \<open>Properties of the manifest write\<close>

lemma iteration_returns:
  "iteration ops n m = Some mn \<Longrightarrow> last_iteration ops mn = Some r \<Longrightarrow>
     writeManifestSafely ops m = Some r"
proof (induction n arbitrary: m)
  case 0
  then show ?case
    by (subst writeManifestSafely.simps)
       (auto simp: last_iteration_def split: prod.splits option.splits if_splits)
next
  case (Suc n)
  from Suc.prems(1) obtain m1 err m2 where
    l: "loadManifest ops m = (None, m1)" and w: "writeManifest ops m1 = (Some err, m2)"
    and e: "errors_is err ErrAlreadyExists" and it: "iteration ops n m2 = Some mn"
    by (auto split: prod.splits option.splits if_splits)
  have "writeManifestSafely ops m = writeManifestSafely ops m2"
    using l w e by (subst writeManifestSafely.simps) simp
  then show ?case using Suc.IH [OF it Suc.prems(2)] by simp
qed

lemma returns_iteration:
  assumes "writeManifestSafely ops m = Some r"
  shows "\<exists>n mn. iteration ops n m = Some mn \<and> last_iteration ops mn = Some r"
proof (rule writeManifestSafely.raw_induct
    [where P = "\<lambda>ops m r. \<exists>n mn. iteration ops n m = Some mn \<and> last_iteration ops mn = Some r",
      OF _ assms])
  fix wms :: "('a, 'b, 'c) manifest_ops \<Rightarrow> ('a, 'b) memtable_flusher
     \<Rightarrow> (error option \<times> ('a, 'b) memtable_flusher) option"
  fix ops m r
  assume IH: "\<And>ops m r. wms ops m = Some r \<Longrightarrow>
      \<exists>n mn. iteration ops n m = Some mn \<and> last_iteration ops mn = Some r"
  assume eq: "(case loadManifest ops m of
        (None, m1) \<Rightarrow>
          (case writeManifest ops m1 of
             (None, m2) \<Rightarrow> Some (None, m2)
           | (Some err, m2) \<Rightarrow>
               if errors_is err ErrAlreadyExists then wms ops m2
               else Some (Some err, m2))
      | (Some err, m1) \<Rightarrow> Some (Some err, m1)) = Some r"
  show "\<exists>n mn. iteration ops n m = Some mn \<and> last_iteration ops mn = Some r"
  proof (cases "last_iteration ops m")
    case (Some r')
    then have "r' = r" using eq
      by (auto simp: last_iteration_def split: prod.splits option.splits if_splits)
    then have "iteration ops 0 m = Some m \<and> last_iteration ops m = Some r" using Some by simp
    then show ?thesis by blast
  next
    case None
    then obtain m1 err m2 where
      l: "loadManifest ops m = (None, m1)" and w: "writeManifest ops m1 = (Some err, m2)"
      and e: "errors_is err ErrAlreadyExists"
      by (auto simp: last_iteration_def split: prod.splits option.splits if_splits)
    then have "wms ops m2 = Some r" using eq by simp
    from IH [OF this] obtain n mn where
      "iteration ops n m2 = Some mn" "last_iteration ops mn = Some r" by blast
    then have "iteration ops (Suc n) m = Some mn \<and> last_iteration ops mn = Some r"
      using l w e by simp
    then show ?thesis by blast
  qed
qed

lemma writeManifestSafely_iff:
  "writeManifestSafely ops m = Some r \<longleftrightarrow>
     (\<exists>n mn. iteration ops n m = Some mn \<and> last_iteration ops mn = Some r)"
  using iteration_returns returns_iteration by blast

lemma last_iteration_nil:
  "(\<exists>m'. last_iteration ops mn = Some (None, m')) \<longleftrightarrow> write_succeeds ops mn"
  by (auto simp: last_iteration_def write_succeeds_def split: prod.splits option.splits if_splits)

lemma last_iteration_err:
  "last_iteration ops mn = Some (Some err, m') \<longleftrightarrow>
     loadManifest ops mn = (Some err, m') \<or>
     (\<exists>m1. loadManifest ops mn = (None, m1) \<and> writeManifest ops m1 = (Some err, m') \<and>
           \<not> errors_is err ErrAlreadyExists)"
  by (auto simp: last_iteration_def split: prod.splits option.splits if_splits)

text \<open>
  Claim C5. An iteration of \<^const>\<open>writeManifestSafely\<close> refreshes and then writes. An
  error of the refresh is returned as it is; a write answered with
  \<^verbatim>\<open>ErrAlreadyExists\<close> makes the loop go round again from the state it left; any other
  error of the write is returned as it is. The function returns \<^verbatim>\<open>nil\<close> exactly when
  the write of some iteration succeeds, and returns an error exactly when some
  iteration's refresh fails with it or its write fails with it and it is not
  \<^verbatim>\<open>ErrAlreadyExists\<close>.
\<close>

theorem writeManifestSafely_retries_on_conflict:
  "(\<forall>err m1. loadManifest ops m = (Some err, m1) \<longrightarrow>
      writeManifestSafely ops m = Some (Some err, m1)) \<and>
   (\<forall>m1 err m2. loadManifest ops m = (None, m1) \<and> writeManifest ops m1 = (Some err, m2) \<and>
      errors_is err ErrAlreadyExists \<longrightarrow>
      writeManifestSafely ops m = writeManifestSafely ops m2) \<and>
   (\<forall>m1 err m2. loadManifest ops m = (None, m1) \<and> writeManifest ops m1 = (Some err, m2) \<and>
      \<not> errors_is err ErrAlreadyExists \<longrightarrow>
      writeManifestSafely ops m = Some (Some err, m2)) \<and>
   ((\<exists>m'. writeManifestSafely ops m = Some (None, m')) \<longleftrightarrow>
      (\<exists>n mn. iteration ops n m = Some mn \<and> write_succeeds ops mn)) \<and>
   (\<forall>err m'. writeManifestSafely ops m = Some (Some err, m') \<longleftrightarrow>
      (\<exists>n mn. iteration ops n m = Some mn \<and>
         (loadManifest ops mn = (Some err, m') \<or>
          (\<exists>m1. loadManifest ops mn = (None, m1) \<and> writeManifest ops m1 = (Some err, m') \<and>
                \<not> errors_is err ErrAlreadyExists))))"
proof (intro conjI allI impI)
  fix err m1 assume "loadManifest ops m = (Some err, m1)"
  then show "writeManifestSafely ops m = Some (Some err, m1)"
    by (subst writeManifestSafely.simps) simp
next
  fix m1 err m2
  assume "loadManifest ops m = (None, m1) \<and> writeManifest ops m1 = (Some err, m2) \<and>
      errors_is err ErrAlreadyExists"
  then show "writeManifestSafely ops m = writeManifestSafely ops m2"
    by (subst writeManifestSafely.simps) simp
next
  fix m1 err m2
  assume "loadManifest ops m = (None, m1) \<and> writeManifest ops m1 = (Some err, m2) \<and>
      \<not> errors_is err ErrAlreadyExists"
  then show "writeManifestSafely ops m = Some (Some err, m2)"
    by (subst writeManifestSafely.simps) simp
next
  show "(\<exists>m'. writeManifestSafely ops m = Some (None, m')) \<longleftrightarrow>
      (\<exists>n mn. iteration ops n m = Some mn \<and> write_succeeds ops mn)"
    unfolding writeManifestSafely_iff using last_iteration_nil by blast
next
  fix err m'
  show "writeManifestSafely ops m = Some (Some err, m') \<longleftrightarrow>
      (\<exists>n mn. iteration ops n m = Some mn \<and>
         (loadManifest ops mn = (Some err, m') \<or>
          (\<exists>m1. loadManifest ops mn = (None, m1) \<and> writeManifest ops m1 = (Some err, m') \<and>
                \<not> errors_is err ErrAlreadyExists)))"
    unfolding writeManifestSafely_iff last_iteration_err ..
qed

theorem writeManifestSafely_retries_on_conflict_witness:
  "iteration contended_ops 2 \<lparr>manifest = (0, 2), db = 0\<rparr> = Some \<lparr>manifest = (2, 0), db = 1\<rparr> \<and>
   write_succeeds contended_ops \<lparr>manifest = (2, 0), db = 1\<rparr> \<and>
   writeManifestSafely contended_ops \<lparr>manifest = (0, 2), db = 0\<rparr>
     = Some (None, \<lparr>manifest = (3, 0), db = 2\<rparr>)"
proof -
  let ?m = "\<lparr>manifest = (0::nat, 2::nat), db = 0::nat\<rparr>"
  have it: "iteration contended_ops 2 ?m = Some \<lparr>manifest = (2, 0), db = 1\<rparr>"
    by (simp add: numeral_2_eq_2 loadManifest_def writeManifest_def contended_ops_def)
  have ws: "write_succeeds contended_ops \<lparr>manifest = (2, 0), db = 1\<rparr>"
    by (simp add: write_succeeds_def loadManifest_def writeManifest_def contended_ops_def)
  have "\<exists>m'. writeManifestSafely contended_ops ?m = Some (None, m')"
    using writeManifestSafely_retries_on_conflict [of contended_ops ?m] it ws by blast
  moreover have "writeManifestSafely contended_ops ?m = Some (None, \<lparr>manifest = (3, 0), db = 2\<rparr>)"
    by (simp add: writeManifestSafely.simps loadManifest_def writeManifest_def contended_ops_def)
  ultimately show ?thesis using it ws by simp
qed
section \<open>Properties of the sorted-run iterator\<close>

lemma kvs_ahead_eq:
  "kvs_ahead iter =
     (map toKeyValue (filter live (fst (entries_ahead iter))), snd (entries_ahead iter))"
proof (induction iter rule: entries_ahead.induct)
  case (1 iter)
  obtain r iter2 where ne: "NextEntry iter = (r, iter2)" by (cases "NextEntry iter")
  show ?case
  proof (cases r)
    case (Inl err)
    have "Next iter = (Inl err, iter2)" using ne Inl by (subst Next.simps) simp
    then have "kvs_ahead iter = ([], Some err)" by (subst kvs_ahead.simps) simp
    moreover have "entries_ahead iter = ([], Some err)"
      using ne Inl by (subst entries_ahead.simps) simp
    ultimately show ?thesis by simp
  next
    case (Inr b)
    show ?thesis
    proof (cases b)
      case None
      have "Next iter = (Inr None, iter2)" using ne Inr None by (subst Next.simps) simp
      then have "kvs_ahead iter = ([], None)" by (subst kvs_ahead.simps) simp
      moreover have "entries_ahead iter = ([], None)"
        using ne Inr None by (subst entries_ahead.simps) simp
      ultimately show ?thesis by simp
    next
      case (Some keyVal)
      have IH: "kvs_ahead iter2 =
          (map toKeyValue (filter live (fst (entries_ahead iter2))), snd (entries_ahead iter2))"
        using "1.IH" [OF ne [symmetric] Inr Some] .
      have ea: "entries_ahead iter =
          (keyVal # fst (entries_ahead iter2), snd (entries_ahead iter2))"
        using ne Inr Some by (subst entries_ahead.simps) (simp split: prod.splits)
      show ?thesis
      proof (cases "isTombstone (valueDel keyVal)")
        case True
        then have "Next iter = Next iter2" using ne Inr Some by (subst Next.simps) simp
        then have "kvs_ahead iter = kvs_ahead iter2"
          by (subst kvs_ahead.simps, subst (2) kvs_ahead.simps) simp
        moreover have "\<not> live keyVal" using True by (simp add: live_def)
        ultimately show ?thesis using IH ea by simp
      next
        case False
        then have "Next iter = (Inr (Some (toKeyValue keyVal)), iter2)"
          using ne Inr Some by (subst Next.simps) (simp add: toKeyValue_def)
        then have "kvs_ahead iter = (toKeyValue keyVal # fst (kvs_ahead iter2), snd (kvs_ahead iter2))"
          by (subst kvs_ahead.simps) (simp split: prod.splits)
        moreover have "live keyVal" using False by (simp add: live_def)
        ultimately show ?thesis using IH ea by simp
      qed
    qed
  qed
qed

lemma Next_result:
  "fst (Next iter) =
     (case filter live (fst (entries_ahead iter)) of
        keyVal # rest \<Rightarrow> Inr (Some (toKeyValue keyVal))
      | [] \<Rightarrow> (case snd (entries_ahead iter) of None \<Rightarrow> Inr None | Some err \<Rightarrow> Inl err))"
proof (induction iter rule: entries_ahead.induct)
  case (1 iter)
  obtain r iter2 where ne: "NextEntry iter = (r, iter2)" by (cases "NextEntry iter")
  show ?case
  proof (cases r)
    case (Inl err)
    have "Next iter = (Inl err, iter2)" using ne Inl by (subst Next.simps) simp
    moreover have "entries_ahead iter = ([], Some err)"
      using ne Inl by (subst entries_ahead.simps) simp
    ultimately show ?thesis by simp
  next
    case (Inr b)
    show ?thesis
    proof (cases b)
      case None
      have "Next iter = (Inr None, iter2)" using ne Inr None by (subst Next.simps) simp
      moreover have "entries_ahead iter = ([], None)"
        using ne Inr None by (subst entries_ahead.simps) simp
      ultimately show ?thesis by simp
    next
      case (Some keyVal)
      note IH = "1.IH" [OF ne [symmetric] Inr Some]
      have ea: "entries_ahead iter =
          (keyVal # fst (entries_ahead iter2), snd (entries_ahead iter2))"
        using ne Inr Some by (subst entries_ahead.simps) (simp split: prod.splits)
      show ?thesis
      proof (cases "isTombstone (valueDel keyVal)")
        case True
        then have "Next iter = Next iter2" using ne Inr Some by (subst Next.simps) simp
        moreover have "\<not> live keyVal" using True by (simp add: live_def)
        ultimately show ?thesis using IH ea by (simp split: list.splits)
      next
        case False
        then have "Next iter = (Inr (Some (toKeyValue keyVal)), iter2)"
          using ne Inr Some by (subst Next.simps) (simp add: toKeyValue_def)
        moreover have "live keyVal" using False by (simp add: live_def)
        ultimately show ?thesis using ea by simp
      qed
    qed
  qed
qed

lemma compaction_Next_result:
  "fst (compaction_Next iter) =
     (case filter live_row (rows_ahead iter) of
        keyVal # rest \<Rightarrow> Some (rowToKeyValue keyVal)
      | [] \<Rightarrow> None)"
proof (induction iter rule: rows_ahead.induct)
  case (1 iter)
  obtain r iter2 where ne: "compaction_NextEntry iter = (r, iter2)"
    by (cases "compaction_NextEntry iter")
  show ?case
  proof (cases r)
    case None
    have "compaction_Next iter = (None, iter2)"
      using ne None by (subst compaction_Next.simps) simp
    moreover have "rows_ahead iter = []" using ne None by (subst rows_ahead.simps) simp
    ultimately show ?thesis by simp
  next
    case (Some keyVal)
    note IH = "1.IH" [OF ne [symmetric] Some]
    have ra: "rows_ahead iter = keyVal # rows_ahead iter2"
      using ne Some by (subst rows_ahead.simps) simp
    show ?thesis
    proof (cases "IsTombstone (Value keyVal)")
      case True
      then have "compaction_Next iter = compaction_Next iter2"
        using ne Some by (subst compaction_Next.simps) simp
      moreover have "\<not> live_row keyVal" using True by (simp add: live_row_def)
      ultimately show ?thesis using IH ra by simp
    next
      case False
      then have "compaction_Next iter = (Some (rowToKeyValue keyVal), iter2)"
        using ne Some by (subst compaction_Next.simps) (simp add: rowToKeyValue_def)
      moreover have "live_row keyVal" using False by (simp add: live_row_def)
      ultimately show ?thesis using ra by simp
    qed
  qed
qed

lemma pairs_ahead_eq: "pairs_ahead iter = map rowToKeyValue (filter live_row (rows_ahead iter))"
proof (induction iter rule: rows_ahead.induct)
  case (1 iter)
  obtain r iter2 where ne: "compaction_NextEntry iter = (r, iter2)"
    by (cases "compaction_NextEntry iter")
  show ?case
  proof (cases r)
    case None
    have "compaction_Next iter = (None, iter2)"
      using ne None by (subst compaction_Next.simps) simp
    then have "pairs_ahead iter = []" by (subst pairs_ahead.simps) simp
    moreover have "rows_ahead iter = []" using ne None by (subst rows_ahead.simps) simp
    ultimately show ?thesis by simp
  next
    case (Some keyVal)
    note IH = "1.IH" [OF ne [symmetric] Some]
    have ra: "rows_ahead iter = keyVal # rows_ahead iter2"
      using ne Some by (subst rows_ahead.simps) simp
    show ?thesis
    proof (cases "IsTombstone (Value keyVal)")
      case True
      then have "compaction_Next iter = compaction_Next iter2"
        using ne Some by (subst compaction_Next.simps) simp
      then have "pairs_ahead iter = pairs_ahead iter2"
        by (subst pairs_ahead.simps, subst (2) pairs_ahead.simps) simp
      moreover have "\<not> live_row keyVal" using True by (simp add: live_row_def)
      ultimately show ?thesis using IH ra by simp
    next
      case False
      then have "compaction_Next iter = (Some (rowToKeyValue keyVal), iter2)"
        using ne Some by (subst compaction_Next.simps) (simp add: rowToKeyValue_def)
      then have "pairs_ahead iter = rowToKeyValue keyVal # pairs_ahead iter2"
        by (subst pairs_ahead.simps) simp
      moreover have "live_row keyVal" using False by (simp add: live_row_def)
      ultimately show ?thesis using IH ra by simp
    qed
  qed
qed

text \<open>
  Claim C8. In both packages, the key-value pairs that \<^verbatim>\<open>Next\<close> yields, call after call,
  are exactly the entries that \<^verbatim>\<open>NextEntry\<close> yields that are not tombstones, in the same
  order, each converted to its key and its bytes. One call of \<^verbatim>\<open>Next\<close> returns the
  first entry ahead that is not a tombstone, and returns absent exactly when no such
  entry is ahead (in package slatedb: and \<^const>\<open>NextEntry\<close> runs into the end of the run
  without an error; its sequence and that of \<^const>\<open>Next\<close> end with the same error
  otherwise).
\<close>

theorem Next_yields_live_entries:
  "kvs_ahead iter =
     (map toKeyValue (filter live (fst (entries_ahead iter))), snd (entries_ahead iter)) \<and>
   fst (Next iter) =
     (case filter live (fst (entries_ahead iter)) of
        keyVal # rest \<Rightarrow> Inr (Some (toKeyValue keyVal))
      | [] \<Rightarrow> (case snd (entries_ahead iter) of None \<Rightarrow> Inr None | Some err \<Rightarrow> Inl err)) \<and>
   (fst (Next iter) = Inr None \<longleftrightarrow>
      filter live (fst (entries_ahead iter)) = [] \<and> snd (entries_ahead iter) = None) \<and>
   pairs_ahead citer = map rowToKeyValue (filter live_row (rows_ahead citer)) \<and>
   fst (compaction_Next citer) =
     (case filter live_row (rows_ahead citer) of
        keyVal # rest \<Rightarrow> Some (rowToKeyValue keyVal)
      | [] \<Rightarrow> None) \<and>
   (fst (compaction_Next citer) = None \<longleftrightarrow> filter live_row (rows_ahead citer) = [])"
proof (intro conjI)
  show "kvs_ahead iter =
     (map toKeyValue (filter live (fst (entries_ahead iter))), snd (entries_ahead iter))"
    by (rule kvs_ahead_eq)
  show res: "fst (Next iter) =
     (case filter live (fst (entries_ahead iter)) of
        keyVal # rest \<Rightarrow> Inr (Some (toKeyValue keyVal))
      | [] \<Rightarrow> (case snd (entries_ahead iter) of None \<Rightarrow> Inr None | Some err \<Rightarrow> Inl err))"
    by (rule Next_result)
  show "fst (Next iter) = Inr None \<longleftrightarrow>
      filter live (fst (entries_ahead iter)) = [] \<and> snd (entries_ahead iter) = None"
    unfolding res by (simp split: list.splits option.splits)
  show "pairs_ahead citer = map rowToKeyValue (filter live_row (rows_ahead citer))"
    by (rule pairs_ahead_eq)
  show cres: "fst (compaction_Next citer) =
     (case filter live_row (rows_ahead citer) of
        keyVal # rest \<Rightarrow> Some (rowToKeyValue keyVal)
      | [] \<Rightarrow> None)"
    by (rule compaction_Next_result)
  show "fst (compaction_Next citer) = None \<longleftrightarrow> filter live_row (rows_ahead citer) = []"
    unfolding cres by (simp split: list.splits)
qed

theorem Next_yields_live_entries_witness:
  "entries_ahead example_run_iterator =
     ([\<lparr>key = ''a'', valueDel = \<lparr>val = ''1'', isTombstone = False\<rparr>\<rparr>,
       \<lparr>key = ''b'', valueDel = \<lparr>val = [], isTombstone = True\<rparr>\<rparr>,
       \<lparr>key = ''c'', valueDel = \<lparr>val = [], isTombstone = False\<rparr>\<rparr>], None) \<and>
   kvs_ahead example_run_iterator =
     ([\<lparr>kv_key = ''a'', kv_val = ''1''\<rparr>, \<lparr>kv_key = ''c'', kv_val = []\<rparr>], None) \<and>
   pairs_ahead example_compaction_iterator =
     [\<lparr>KVKey = ''a'', KVValue = Slice ''1''\<rparr>, \<lparr>KVKey = ''c'', KVValue = Slice []\<rparr>]"
proof -
  have e: "entries_ahead example_run_iterator =
     ([\<lparr>key = ''a'', valueDel = \<lparr>val = ''1'', isTombstone = False\<rparr>\<rparr>,
       \<lparr>key = ''b'', valueDel = \<lparr>val = [], isTombstone = True\<rparr>\<rparr>,
       \<lparr>key = ''c'', valueDel = \<lparr>val = [], isTombstone = False\<rparr>\<rparr>], None)"
    by (simp add: entries_ahead.simps NextEntry.simps example_run_iterator_def
        sst_NextEntry_def sst_list_Next_def handle_with_first_key_def)
  have r: "rows_ahead example_compaction_iterator =
     [\<lparr>Key = ''a'', Value = \<lparr>Data = Slice ''1'', Kind = KindKeyValue\<rparr>\<rparr>,
      \<lparr>Key = ''b'', Value = \<lparr>Data = Nil_slice, Kind = KindTombStone\<rparr>\<rparr>,
      \<lparr>Key = ''c'', Value = \<lparr>Data = Slice [], Kind = KindKeyValue\<rparr>\<rparr>]"
    by (simp add: rows_ahead.simps compaction_NextEntry.simps example_compaction_iterator_def
        table_NextEntry_def sst_list_Next_def handle_with_first_key_def Let_def)
  note t = Next_yields_live_entries [of example_run_iterator example_compaction_iterator]
  show ?thesis
    using t [THEN conjunct1] t [THEN conjunct2, THEN conjunct2, THEN conjunct2, THEN conjunct1] e r
    by (simp add: live_def toKeyValue_def live_row_def rowToKeyValue_def IsTombstone_def)
qed
section \<open>Properties of the WAL flush path\<close>

lemmas flush_eval = FlushWAL_def FreezeWAL_def record_event_def flushImmWALs.simps OldestImmWAL_def
  flush_oldest_def flushImmWAL_def flushImmTable_def NewImmutableWal_def NewIDWal_def decimal.simps
  kv_iter_def listing_builder_def database_with_wal_def WriteSST_def sstPath_def store_listing_def
  path_join_def path_clean_def clean_step_def bucket_upload_def cacheFilter_def NewHandle_def
  PopImmWAL_def flushImmWALToMemtable_def SetLastWalID_def Memtable_Put_def maybeFreezeMemtable_def
  kv_size_def IsTombstone_def WAL_Put_def kv_put_def WAL_Delete_def kv_delete_def Let_def

lemma flush_oldest_ok:
  "flush_oldest ops d w = (None, d1) \<Longrightarrow>
     events d1 = events d @ round_events w \<and> imm_wals d1 = tl (imm_wals d)"
  by (auto simp: flush_oldest_def flushImmWAL_def record_event_def PopImmWAL_def
      maybeFreezeMemtable_def round_events_def Let_def split: prod.splits sum.splits)

lemma flush_oldest_err:
  "flush_oldest ops d w = (Some err, d1) \<Longrightarrow>
     events d1 = events d @ [EvFlushImmWAL (wal_id w)] \<and> imm_wals d1 = imm_wals d \<and>
     mem d1 = mem d \<and> wal d1 = wal d"
  by (auto simp: flush_oldest_def flushImmWAL_def record_event_def
      Let_def split: prod.splits sum.splits)

lemma flushImmWALs_events:
  "flushImmWALs ops d = (r, d1) \<Longrightarrow>
     (r = None \<longrightarrow>
        events d1 = events d @ concat (map round_events (imm_wals d)) \<and> imm_wals d1 = []) \<and>
     (\<forall>err. r = Some err \<longrightarrow>
        (\<exists>flushed w rest. imm_wals d = flushed @ w # rest \<and>
           events d1 = events d @ concat (map round_events flushed) @ [EvFlushImmWAL (wal_id w)] \<and>
           imm_wals d1 = w # rest))"
proof (induction ops d arbitrary: r d1 rule: flushImmWALs.induct)
  case (1 ops d)
  show ?case
  proof (cases "imm_wals d")
    case Nil
    then have "flushImmWALs ops d = (None, d)"
      by (subst flushImmWALs.simps) (simp add: OldestImmWAL_def)
    then show ?thesis using "1.prems" Nil by simp
  next
    case (Cons w ws)
    then have old: "OldestImmWAL d = Some w" by (simp add: OldestImmWAL_def)
    obtain x d2 where fo: "flush_oldest ops d w = (x, d2)" by (cases "flush_oldest ops d w")
    show ?thesis
    proof (cases x)
      case (Some err)
      then have "flushImmWALs ops d = (Some err, d2)"
        using old fo by (subst flushImmWALs.simps) simp
      then have r: "r = Some err" "d1 = d2" using "1.prems" by simp_all
      have "imm_wals d = [] @ w # ws \<and>
           events d1 = events d @ concat (map round_events []) @ [EvFlushImmWAL (wal_id w)] \<and>
           imm_wals d1 = w # ws"
        using flush_oldest_err [of ops d w err d2] fo Some r Cons by simp
      then show ?thesis using r by blast
    next
      case None
      then have eq: "flushImmWALs ops d = flushImmWALs ops d2"
        using old fo by (subst flushImmWALs.simps) simp
      have step: "events d2 = events d @ round_events w" "imm_wals d2 = ws"
        using flush_oldest_ok [of ops d w d2] fo None Cons by simp_all
      have rec: "flushImmWALs ops d2 = (r, d1)" using "1.prems" eq by simp
      note IH = "1.IH" [OF old fo [symmetric] None rec]
      show ?thesis
      proof (intro conjI impI allI)
        assume "r = None"
        then show "events d1 = events d @ concat (map round_events (imm_wals d))"
          using IH step Cons by simp
      next
        assume "r = None"
        then show "imm_wals d1 = []" using IH by simp
      next
        fix err assume "r = Some err"
        then obtain flushed w1 rest where
          "imm_wals d2 = flushed @ w1 # rest"
          "events d1 = events d2 @ concat (map round_events flushed) @ [EvFlushImmWAL (wal_id w1)]"
          "imm_wals d1 = w1 # rest"
          using IH by blast
        then have "imm_wals d = (w # flushed) @ w1 # rest \<and>
           events d1 = events d @ concat (map round_events (w # flushed)) @ [EvFlushImmWAL (wal_id w1)] \<and>
           imm_wals d1 = w1 # rest"
          using step Cons by simp
        then show "\<exists>flushed w rest. imm_wals d = flushed @ w # rest \<and>
           events d1 = events d @ concat (map round_events flushed) @ [EvFlushImmWAL (wal_id w)] \<and>
           imm_wals d1 = w # rest" by blast
      qed
    qed
  qed
qed

text \<open>
  Claim C1, as stated, fails: the claim has the immutable WAL popped from the queue last,
  after its durability signal. In \<^const>\<open>flushImmWALs\<close> the pop is the second step, right
  after the SST is written: for one frozen WAL the events are write, pop, replay, maybe
  freeze, signal, so the signal comes after the pop and the pop does not come after the
  signal.
\<close>

theorem flushImmWALs_pops_before_notifying:
  "events (snd (flushImmWALs listing_builder
             (FreezeWAL (database_with_wal (WAL_Put [] ''key1'' (Slice ''value1''))))))
     = [EvFlushImmWAL 1, EvPopImmWAL 1, EvFlushImmWALToMemtable 1, EvMaybeFreezeMemtable 1,
        EvNotifyWALFlushed 1] \<and>
   occurs_after (EvNotifyWALFlushed 1) (EvPopImmWAL 1)
     (events (snd (flushImmWALs listing_builder
             (FreezeWAL (database_with_wal (WAL_Put [] ''key1'' (Slice ''value1''))))))) \<and>
   \<not> occurs_after (EvPopImmWAL 1) (EvNotifyWALFlushed 1)
     (events (snd (flushImmWALs listing_builder
             (FreezeWAL (database_with_wal (WAL_Put [] ''key1'' (Slice ''value1'')))))))"
proof -
  have "events (snd (flushImmWALs listing_builder
             (FreezeWAL (database_with_wal (WAL_Put [] ''key1'' (Slice ''value1''))))))
     = [EvFlushImmWAL 1, EvPopImmWAL 1, EvFlushImmWALToMemtable 1, EvMaybeFreezeMemtable 1,
        EvNotifyWALFlushed 1]"
    by (simp add: flush_eval)
  then show ?thesis by (simp add: occurs_after_def)
qed


text \<open>
  Claim C1, amended. For every immutable WAL that \<^const>\<open>flushImmWALs\<close> processes the
  steps occur in this order: build and write its SST, pop it from the queue, replay its
  entries into the live memtable (which sets the memtable's last WAL id to its id), call
  \<^const>\<open>maybeFreezeMemtable\<close>, signal its durability. When the loop returns \<^verbatim>\<open>nil\<close> it
  has done so for every WAL of the queue, oldest first, and the queue is empty. When it
  returns an error, it has done so for the WALs before the one whose SST could not be
  written; that one is still at the head of the queue, not replayed and not signalled.
\<close>

theorem flushImmWALs_order_of_steps:
  assumes "flushImmWALs ops d = (r, d1)"
  shows "(r = None \<longrightarrow>
            events d1 = events d @ concat (map round_events (imm_wals d)) \<and> imm_wals d1 = []) \<and>
         (\<forall>err. r = Some err \<longrightarrow>
            (\<exists>flushed w rest. imm_wals d = flushed @ w # rest \<and>
               events d1 = events d @ concat (map round_events flushed) @ [EvFlushImmWAL (wal_id w)] \<and>
               imm_wals d1 = w # rest)) \<and>
         (\<forall>w mt. last_wal_id (flushImmWALToMemtable w mt) = Some (wal_id w))"
  using flushImmWALs_events [OF assms]
  by (simp add: flushImmWALToMemtable_def SetLastWalID_def)


theorem flushImmWALs_order_of_steps_witness:
  "fst (flushImmWALs listing_builder
          (FreezeWAL (database_with_wal (WAL_Put [] ''key1'' (Slice ''value1''))))) = None \<and>
   imm_wals (snd (flushImmWALs listing_builder
          (FreezeWAL (database_with_wal (WAL_Put [] ''key1'' (Slice ''value1'')))))) = [] \<and>
   fst (flushImmWALs listing_builder
          (FreezeWAL (database_on_failing_store (WAL_Put [] ''key1'' (Slice ''value1'')))))
     = Some ErrObjectStore \<and>
   events (snd (flushImmWALs listing_builder
          (FreezeWAL (database_on_failing_store (WAL_Put [] ''key1'' (Slice ''value1''))))))
     = [EvFlushImmWAL 1]"
proof -
  let ?d = "FreezeWAL (database_with_wal (WAL_Put [] ''key1'' (Slice ''value1'')))"
  let ?e = "FreezeWAL (database_on_failing_store (WAL_Put [] ''key1'' (Slice ''value1'')))"
  have f: "fst (flushImmWALs listing_builder ?d) = None" by (simp add: flush_eval)
  then have eq: "flushImmWALs listing_builder ?d = (None, snd (flushImmWALs listing_builder ?d))"
    by (metis prod.collapse)
  have g: "fst (flushImmWALs listing_builder ?e) = Some ErrObjectStore"
    by (simp add: flush_eval database_on_failing_store_def store_failing_uploads_def)
  then have eq2: "flushImmWALs listing_builder ?e
      = (Some ErrObjectStore, snd (flushImmWALs listing_builder ?e))"
    by (metis prod.collapse)
  have q: "imm_wals ?e = [\<lparr>wal_id = 1, wal_table = WAL_Put [] ''key1'' (Slice ''value1'')\<rparr>]"
      "events ?e = []"
    by (simp_all add: FreezeWAL_def database_on_failing_store_def database_with_wal_def
        NewImmutableWal_def WAL_Put_def kv_put_def)
  from flushImmWALs_order_of_steps [OF eq2] obtain flushed w rest where
    "imm_wals ?e = flushed @ w # rest"
    "events (snd (flushImmWALs listing_builder ?e))
       = events ?e @ concat (map round_events flushed) @ [EvFlushImmWAL (wal_id w)]"
    by blast
  then have "events (snd (flushImmWALs listing_builder ?e)) = [EvFlushImmWAL 1]"
    using q by (cases flushed) auto
  then show ?thesis
    using flushImmWALs_order_of_steps [OF eq] f g by simp
qed

subsection \<open>The task\<close>

lemma flushImmWALs_freezes:
  "freezes (events (snd (flushImmWALs ops d))) = freezes (events d)"
proof -
  obtain r d1 where f: "flushImmWALs ops d = (r, d1)" by (cases "flushImmWALs ops d")
  have no: "freezes (concat (map round_events ws)) = 0" for ws
    by (induction ws) (simp_all add: freezes_def round_events_def)
  show ?thesis
  proof (cases r)
    case None
    then show ?thesis using flushImmWALs_events [OF f] f no by (simp add: freezes_def)
  next
    case (Some err)
    then obtain flushed :: "immutable_wal list" and w :: immutable_wal where
      "events d1 = events d @ concat (map round_events flushed) @ [EvFlushImmWAL (wal_id w)]"
      using flushImmWALs_events [OF f] by blast
    then show ?thesis using f no [of flushed] by (simp add: freezes_def)
  qed
qed

lemma FlushWAL_freezes:
  "freezes (events (snd (FlushWAL ops ctx d))) = freezes (events d) + 1"
  by (simp add: FlushWAL_def flushImmWALs_freezes)
     (simp add: freezes_def record_event_def FreezeWAL_def)

lemma walFlushTask_spec:
  "walFlushTask ops fi wakes d = (d1, left, returned) \<Longrightarrow>
     (returned \<longleftrightarrow> (\<exists>ctx. Notified ctx \<in> set wakes)) \<and>
     left = drop 1 (dropWhile (\<lambda>w. w = Tick) wakes) \<and>
     freezes (events d1) =
       freezes (events d) + length (takeWhile (\<lambda>w. w = Tick) wakes) + (if returned then 1 else 0)"
proof (induction ops fi wakes d arbitrary: d1 left returned rule: walFlushTask.induct)
  case (1 ops fi d)
  then show ?case by simp
next
  case (2 ops fi rest d)
  from "2.prems" have
    "walFlushTask ops fi rest (snd (FlushWAL ops (WithTimeout Background fi) d)) = (d1, left, returned)"
    by simp
  from "2.IH" [OF this] show ?case by (simp add: FlushWAL_freezes)
next
  case (3 ops fi ctx rest d)
  then show ?case by (auto simp: FlushWAL_freezes)
qed

text \<open>
  Claim C4, as stated, fails: the channel carries contexts and nothing else, and the task
  returns after the flush for whatever it receives from the channel. A flush request
  delivered through the channel is served, and then the goroutine has returned; the tick
  that follows is not served.
\<close>

theorem walFlushTask_returns_after_flush_request:
  "snd (snd (walFlushTask listing_builder 100 [Notified Background, Tick]
               (database_with_wal (WAL_Put [] ''key1'' (Slice ''value1''))))) = True \<and>
   fst (snd (walFlushTask listing_builder 100 [Notified Background, Tick]
               (database_with_wal (WAL_Put [] ''key1'' (Slice ''value1''))))) = [Tick]"
  by simp


text \<open>
  Claim C4, amended. A wake of the ticker performs the freeze-and-drain and the loop keeps
  running. Any delivery through the channel performs the freeze-and-drain once more and
  ends the loop, whatever the sender meant by it. So the task has returned exactly when a
  delivery was among its wakes; the wakes after the first delivery are not served; and
  the number of calls of \<^const>\<open>FreezeWAL\<close> is the number of ticks before the first
  delivery, plus one for the delivery.
\<close>

theorem walFlushTask_returns_on_any_message:
  assumes "walFlushTask ops fi wakes d = (d1, left, returned)"
  shows "(returned \<longleftrightarrow> (\<exists>ctx. Notified ctx \<in> set wakes)) \<and>
         left = drop 1 (dropWhile (\<lambda>w. w = Tick) wakes) \<and>
         freezes (events d1) =
           freezes (events d) + length (takeWhile (\<lambda>w. w = Tick) wakes) + (if returned then 1 else 0)"
  using walFlushTask_spec [OF assms] .


theorem walFlushTask_returns_on_any_message_witness:
  "snd (walFlushTask listing_builder 100 [Tick, Notified Background, Tick]
          (database_with_wal (WAL_Put [] ''key1'' (Slice ''value1'')))) = ([Tick], True) \<and>
   freezes (events (fst (walFlushTask listing_builder 100 [Tick, Notified Background, Tick]
          (database_with_wal (WAL_Put [] ''key1'' (Slice ''value1'')))))) = 2"
proof -
  let ?run = "walFlushTask listing_builder 100 [Tick, Notified Background, Tick]
          (database_with_wal (WAL_Put [] ''key1'' (Slice ''value1'')))"
  have eq: "?run = (fst ?run, fst (snd ?run), snd (snd ?run))" by simp
  have r: "snd (snd ?run)" by simp
  from walFlushTask_returns_on_any_message [OF eq] r show ?thesis
    by (simp add: database_with_wal_def freezes_def)
qed

subsection \<open>Tables, and what a drain of the immutable WALs leaves in memory\<close>


















subsection \<open>An empty value after the flush of the WAL\<close>




text \<open>
  Remark. The builder is told nothing but the slice. A value that is the \<^verbatim>\<open>nil\<close>
  slice therefore reaches the SST of the WAL by the call that a tombstone makes; a reader
  of that SST alone cannot tell the two apart. The reads above do not depend on it: they
  find the row in memory.
\<close>

lemma flushImmTable_nil_value_like_tombstone:
  "flushImmTable ops ts sid (kv_iter (WAL_Put [] k Nil_slice))
     = flushImmTable ops ts sid (kv_iter (WAL_Delete [] k))"
  by (simp add: flushImmTable_def kv_iter_def WAL_Put_def WAL_Delete_def kv_put_def kv_delete_def
      IsTombstone_def)

end
